theory Spec2Isabelle
  imports Complex_Main "HOL-Library.Char_ord" "HOL-Library.List_Lexorder" "HOL-Library.Multiset"
    "HOL-Library.Sublist"
begin

section \<open>Values read from the export\<close>

text \<open>
  \<^verbatim>\<open>json.load\<close> yields \<^verbatim>\<open>None\<close>, \<^verbatim>\<open>bool\<close>, \<^verbatim>\<open>int\<close>/\<^verbatim>\<open>float\<close>, \<^verbatim>\<open>str\<close>, \<^verbatim>\<open>list\<close> and
  \<^verbatim>\<open>dict\<close> (keys are strings). Python compares, negates and hashes \<^verbatim>\<open>int\<close> and \<^verbatim>\<open>float\<close> by
  their numeric value, so a number is kept as that value; only finite numbers are modelled
  (JSON proper has no NaN or Infinity). A \<^verbatim>\<open>dict\<close> is the list of its items in insertion
  order; a dict read from JSON has pairwise distinct keys.
\<close>

datatype json =
    JNull
  | JBool bool
  | JNum rat
  | JStr string
  | JList "json list"
  | JDict "(string \<times> json) list"

datatype py_error = AttributeError | TypeError | ValueError | OverflowError

text \<open>Truth value of an object, as tested by \<^verbatim>\<open>if x\<close>, \<^verbatim>\<open>not x\<close>, \<^verbatim>\<open>x or y\<close>.\<close>

fun truthy :: "json \<Rightarrow> bool" where
  "truthy JNull = False"
| "truthy (JBool b) = b"
| "truthy (JNum r) = (r \<noteq> 0)"
| "truthy (JStr s) = (s \<noteq> [])"
| "truthy (JList xs) = (xs \<noteq> [])"
| "truthy (JDict kvs) = (kvs \<noteq> [])"

text \<open>\<^verbatim>\<open>x.get\<close>, \<^verbatim>\<open>x.items()\<close> and \<^verbatim>\<open>x.values()\<close> exist on a dict only.\<close>

fun as_dict :: "json \<Rightarrow> py_error + (string \<times> json) list" where
  "as_dict (JDict kvs) = Inr kvs"
| "as_dict _ = Inl AttributeError"

text \<open>\<^verbatim>\<open>d.get(k)\<close>: the value, \<^verbatim>\<open>None\<close> for a missing key.\<close>

definition dict_get :: "(string \<times> json) list \<Rightarrow> string \<Rightarrow> json" where
  "dict_get kvs k = (case map_of kvs k of None \<Rightarrow> JNull | Some v \<Rightarrow> v)"

text \<open>\<^verbatim>\<open>d.get(k, default)\<close>.\<close>

definition dict_get_default :: "(string \<times> json) list \<Rightarrow> string \<Rightarrow> json \<Rightarrow> json" where
  "dict_get_default kvs k d = (case map_of kvs k of None \<Rightarrow> d | Some v \<Rightarrow> v)"

text \<open>The numeric value of a number; \<^verbatim>\<open>bool\<close> is a subclass of \<^verbatim>\<open>int\<close>.\<close>

fun num_val :: "json \<Rightarrow> rat option" where
  "num_val (JNum r) = Some r"
| "num_val (JBool b) = Some (if b then 1 else 0)"
| "num_val _ = None"

text \<open>\<^verbatim>\<open>x > 0\<close>: a number compares, anything else raises \<^verbatim>\<open>TypeError\<close>.\<close>

definition gt_zero :: "json \<Rightarrow> py_error + bool" where
  "gt_zero x = (case num_val x of None \<Rightarrow> Inl TypeError | Some r \<Rightarrow> Inr (0 < r))"

text \<open>
  \<^verbatim>\<open>for part in parts\<close>: a list yields its elements, a string its characters (each a string
  of length one), a dict its keys; a number is not iterable.
\<close>

fun py_iter :: "json \<Rightarrow> py_error + json list" where
  "py_iter (JList xs) = Inr xs"
| "py_iter (JStr s) = Inr (map (\<lambda>c. JStr [c]) s)"
| "py_iter (JDict kvs) = Inr (map (\<lambda>kv. JStr (fst kv)) kvs)"
| "py_iter _ = Inl TypeError"

section \<open>Decimal formatting\<close>

text \<open>The character of a decimal digit, by its code (\<open>48\<close> is the code of the digit zero).\<close>

definition digit_char :: "nat \<Rightarrow> char" where
  "digit_char n = char_of (48 + n mod 10)"

fun nat_digits :: "nat \<Rightarrow> string" where
  "nat_digits n = (if n < 10 then [digit_char n] else nat_digits (n div 10) @ [digit_char (n mod 10)])"

declare nat_digits.simps [simp del]

text \<open>\<^verbatim>\<open>str(i)\<close> of an integer, as \<^verbatim>\<open>f"{year}"\<close> prints it.\<close>

definition str_int :: "int \<Rightarrow> string" where
  "str_int i = (if i < 0 then CHR ''-'' # nat_digits (nat (- i)) else nat_digits (nat i))"

text \<open>A non-negative integer printed with at least \<open>w\<close> digits, zero-filled on the left
  (\<^verbatim>\<open>{month:02d}\<close>, and the fields of \<^verbatim>\<open>strftime\<close> and \<^verbatim>\<open>isoformat\<close>).\<close>

definition zero_pad :: "nat \<Rightarrow> nat \<Rightarrow> string" where
  "zero_pad w n = replicate (w - length (nat_digits n)) (CHR ''0'') @ nat_digits n"

section \<open>Calendar\<close>

text \<open>\<^verbatim>\<open>calendar.isleap\<close> and the second component of \<^verbatim>\<open>calendar.monthrange\<close>.\<close>

definition isleap :: "int \<Rightarrow> bool" where
  "isleap y = (y mod 4 = 0 \<and> (y mod 100 \<noteq> 0 \<or> y mod 400 = 0))"

definition mdays :: "nat \<Rightarrow> nat" where
  "mdays m =
     (if m = 2 then 28
      else if m = 4 \<or> m = 6 \<or> m = 9 \<or> m = 11 then 30
      else 31)"

definition days_in_month :: "int \<Rightarrow> nat \<Rightarrow> nat" where
  "days_in_month y m = mdays m + (if m = 2 \<and> isleap y then 1 else 0)"

text \<open>\<^verbatim>\<open>_DAYS_BEFORE_MONTH\<close> of the datetime module: days of a common year before month \<open>m\<close>.\<close>

definition days_before_month :: "nat \<Rightarrow> nat" where
  "days_before_month m = sum_list (map mdays [1..<m])"

record datetime =
  dt_year :: int
  dt_month :: nat
  dt_day :: nat
  dt_hour :: nat
  dt_minute :: nat
  dt_second :: nat
  dt_microsecond :: nat

text \<open>
  The proleptic Gregorian ordinal (day 1 is 0001-01-01) to year, month and day, as the
  datetime module computes it (\<^verbatim>\<open>_ord2ymd\<close>), for \<open>1 \<le> n\<close>.
\<close>

definition ord2ymd :: "int \<Rightarrow> int \<times> nat \<times> nat" where
  "ord2ymd n0 =
     (let n = n0 - 1;
          n400 = n div 146097; n = n mod 146097;
          n100 = n div 36524; n = n mod 36524;
          n4 = n div 1461; n = n mod 1461;
          n1 = n div 365; n = n mod 365;
          y = n400 * 400 + 1 + n100 * 100 + n4 * 4 + n1
      in if n1 = 4 \<or> n100 = 4 then (y - 1, 12, 31)
         else
           let leapyear = (n1 = 3 \<and> (n4 \<noteq> 24 \<or> n100 = 3));
               k = nat n;
               month = (k + 50) div 32;
               preceding = days_before_month month + (if month > 2 \<and> leapyear then 1 else 0)
           in if preceding > k
              then (let month' = month - 1;
                        preceding' = preceding - (mdays month' + (if month' = 2 \<and> leapyear then 1 else 0))
                    in (y, month', k - preceding' + 1))
              else (y, month, k - preceding + 1))"

text \<open>Rounding to the nearest integer, ties to even, as \<^verbatim>\<open>fromtimestamp\<close> rounds a float to
  microseconds.\<close>

definition round_half_even :: "rat \<Rightarrow> int" where
  "round_half_even x =
     (let f = \<lfloor>x\<rfloor>; d = x - of_int f
      in if d < 1 / 2 then f else if 1 / 2 < d then f + 1 else if even f then f else f + 1)"

text \<open>
  \<^verbatim>\<open>datetime.fromtimestamp(t, tz=timezone.utc)\<close> on a POSIX platform with a 64-bit
  \<^verbatim>\<open>time_t\<close>: \<^verbatim>\<open>OverflowError\<close> beyond \<^verbatim>\<open>time_t\<close>, \<^verbatim>\<open>ValueError\<close> for a year outside 1..9999.
\<close>

definition fromtimestamp :: "rat \<Rightarrow> py_error + datetime" where
  "fromtimestamp t =
     (let us = round_half_even (t * 1000000);
          secs = us div 1000000;
          micro = us mod 1000000
      in if secs < - (2 ^ 63) \<or> 2 ^ 63 \<le> secs then Inl OverflowError
         else
           let ordinal = secs div 86400 + 719163;
               rem = secs mod 86400
           in if ordinal < 1 \<or> 3652059 < ordinal then Inl ValueError
              else
                (case ord2ymd ordinal of (y, m, d) \<Rightarrow>
                   Inr \<lparr>dt_year = y, dt_month = m, dt_day = d,
                        dt_hour = nat (rem div 3600), dt_minute = nat (rem mod 3600 div 60),
                        dt_second = nat (rem mod 60), dt_microsecond = nat micro\<rparr>))"

text \<open>\<^verbatim>\<open>dt.strftime("%Y-%m-%d")\<close>, the year printed with four digits as documented.\<close>

definition strftime_ymd :: "datetime \<Rightarrow> string" where
  "strftime_ymd dt =
     zero_pad 4 (nat (dt_year dt)) @ ''-'' @ zero_pad 2 (dt_month dt) @ ''-'' @ zero_pad 2 (dt_day dt)"

text \<open>\<^verbatim>\<open>dt.isoformat()\<close> of an aware datetime in UTC.\<close>

definition isoformat :: "datetime \<Rightarrow> string" where
  "isoformat dt =
     strftime_ymd dt @ ''T'' @ zero_pad 2 (dt_hour dt) @ '':'' @ zero_pad 2 (dt_minute dt) @ '':''
       @ zero_pad 2 (dt_second dt)
       @ (if dt_microsecond dt = 0 then [] else ''.'' @ zero_pad 6 (dt_microsecond dt))
       @ ''+00:00''"

section \<open>Message Tree Normalizer: \<^verbatim>\<open>_linearize_messages\<close>\<close>

record message_record =
  msg_id :: json
  role :: json
  name :: json
  content :: string
  createTime :: json
  timestamp :: "string option"

text \<open>
  One turn of the inner loop: the text a part contributes. \<open>py_str\<close> stands for the
  built-in \<^verbatim>\<open>str\<close>, whose output on floats and containers is left open.
\<close>

fun part_text :: "(json \<Rightarrow> string) \<Rightarrow> json \<Rightarrow> py_error + string" where
  "part_text py_str (JStr s) = Inr s"
| "part_text py_str (JDict kvs) =
     (case map_of kvs ''text'' of
        Some v \<Rightarrow> (case v of JStr s \<Rightarrow> Inr s | _ \<Rightarrow> Inl TypeError)
      | None \<Rightarrow>
          (case map_of kvs ''content'' of
             Some v \<Rightarrow> Inr (py_str v)
           | None \<Rightarrow> Inr []))"
| "part_text py_str _ = Inr []"

fun concat_parts :: "(json \<Rightarrow> string) \<Rightarrow> string \<Rightarrow> json list \<Rightarrow> py_error + string" where
  "concat_parts py_str content_text [] = Inr content_text"
| "concat_parts py_str content_text (part # parts) =
     (case part_text py_str part of
        Inl e \<Rightarrow> Inl e
      | Inr s \<Rightarrow> concat_parts py_str (content_text @ s) parts)"

definition extract_content :: "(json \<Rightarrow> string) \<Rightarrow> json \<Rightarrow> py_error + string" where
  "extract_content py_str parts =
     (if truthy parts
      then (case py_iter parts of Inl e \<Rightarrow> Inl e | Inr ps \<Rightarrow> concat_parts py_str [] ps)
      else Inr [])"

text \<open>The timestamp: conversion errors are caught, the comparison's \<^verbatim>\<open>TypeError\<close> is not.\<close>

definition extract_timestamp :: "json \<Rightarrow> py_error + string option" where
  "extract_timestamp create_time =
     (if truthy create_time
      then (case gt_zero create_time of
              Inl e \<Rightarrow> Inl e
            | Inr False \<Rightarrow> Inr None
            | Inr True \<Rightarrow>
                (case num_val create_time of
                   None \<Rightarrow> Inr None
                 | Some t \<Rightarrow> (case fromtimestamp t of Inl e \<Rightarrow> Inr None | Inr dt \<Rightarrow> Inr (Some (isoformat dt)))))
      else Inr None)"

text \<open>The body of the loop for one node: \<open>None\<close> is \<^verbatim>\<open>continue\<close>.\<close>

definition node_message :: "(json \<Rightarrow> string) \<Rightarrow> json \<Rightarrow> py_error + message_record option" where
  "node_message py_str node =
     (case as_dict node of
        Inl e \<Rightarrow> Inl e
      | Inr nd \<Rightarrow>
          let msg = dict_get nd ''message'' in
          if \<not> truthy msg then Inr None
          else
            (case as_dict msg of
               Inl e \<Rightarrow> Inl e
             | Inr m \<Rightarrow>
                 let author = dict_get_default m ''author'' (JDict []);
                     content = dict_get_default m ''content'' (JDict [])
                 in (case as_dict content of
                       Inl e \<Rightarrow> Inl e
                     | Inr c \<Rightarrow>
                         (case extract_content py_str (dict_get_default c ''parts'' (JList [])) of
                            Inl e \<Rightarrow> Inl e
                          | Inr content_text \<Rightarrow>
                              let create_time = dict_get m ''create_time'' in
                              (case extract_timestamp create_time of
                                 Inl e \<Rightarrow> Inl e
                               | Inr ts \<Rightarrow>
                                   (case as_dict author of
                                      Inl e \<Rightarrow> Inl e
                                    | Inr a \<Rightarrow>
                                        Inr (Some \<lparr>msg_id = dict_get m ''id'',
                                                   role = dict_get a ''role'',
                                                   name = dict_get a ''name'',
                                                   content = content_text,
                                                   createTime = create_time,
                                                   timestamp = ts\<rparr>)))))))"

fun collect_messages :: "(json \<Rightarrow> string) \<Rightarrow> (string \<times> json) list \<Rightarrow> py_error + message_record list" where
  "collect_messages py_str [] = Inr []"
| "collect_messages py_str ((node_id, node) # items) =
     (case node_message py_str node of
        Inl e \<Rightarrow> Inl e
      | Inr None \<Rightarrow> collect_messages py_str items
      | Inr (Some m) \<Rightarrow>
          (case collect_messages py_str items of
             Inl e \<Rightarrow> Inl e
           | Inr ms \<Rightarrow> Inr (m # ms)))"

text \<open>
  The sort key \<^verbatim>\<open>m["createTime"] or 0\<close>. The loop has raised \<^verbatim>\<open>TypeError\<close> for every truthy
  \<^verbatim>\<open>create_time\<close> that is not a number, so the last case is never reached by a message
  that is sorted (lemma \<open>collect_messages_numeric\<close>).
\<close>

definition sort_key_of :: "message_record \<Rightarrow> rat" where
  "sort_key_of m =
     (if truthy (createTime m)
      then (case num_val (createTime m) of Some r \<Rightarrow> r | None \<Rightarrow> 0)
      else 0)"

text \<open>\<^verbatim>\<open>list.sort\<close> is stable; \<^const>\<open>sort_key\<close> is the stable sort of the library.\<close>

definition linearize_messages :: "(json \<Rightarrow> string) \<Rightarrow> json \<Rightarrow> py_error + message_record list" where
  "linearize_messages py_str mapping =
     (case as_dict mapping of
        Inl e \<Rightarrow> Inl e
      | Inr items \<Rightarrow>
          (case collect_messages py_str items of
             Inl e \<Rightarrow> Inl e
           | Inr messages \<Rightarrow> Inr (sort_key sort_key_of messages)))"

text \<open>
  The count of \<^verbatim>\<open>get_stats\<close> and \<^verbatim>\<open>get_conversations_by_date\<close>:
  \<^verbatim>\<open>sum(1 for node in c.mapping.values() if node.get("message"))\<close>.
\<close>

fun count_nodes :: "(string \<times> json) list \<Rightarrow> py_error + nat" where
  "count_nodes [] = Inr 0"
| "count_nodes ((node_id, node) # items) =
     (case as_dict node of
        Inl e \<Rightarrow> Inl e
      | Inr nd \<Rightarrow>
          (case count_nodes items of
             Inl e \<Rightarrow> Inl e
           | Inr n \<Rightarrow> Inr (if truthy (dict_get nd ''message'') then Suc n else n)))"

definition message_count :: "json \<Rightarrow> py_error + nat" where
  "message_count mapping =
     (case as_dict mapping of Inl e \<Rightarrow> Inl e | Inr items \<Rightarrow> count_nodes items)"

section \<open>Corpus Store\<close>

text \<open>
  The key under which a dict files an object: numbers and booleans by their numeric value
  (\<^verbatim>\<open>1\<close>, \<^verbatim>\<open>1.0\<close> and \<^verbatim>\<open>True\<close> are one key); a list or a dict is unhashable.
\<close>

datatype pykey = KNone | KNum rat | KStr string

fun hash_key :: "json \<Rightarrow> py_error + pykey" where
  "hash_key JNull = Inr KNone"
| "hash_key (JBool b) = Inr (KNum (if b then 1 else 0))"
| "hash_key (JNum r) = Inr (KNum r)"
| "hash_key (JStr s) = Inr (KStr s)"
| "hash_key (JList xs) = Inl TypeError"
| "hash_key (JDict kvs) = Inl TypeError"

text \<open>\<^verbatim>\<open>d[k] = v\<close>: an existing key keeps its place, a new key goes last.\<close>

fun dict_set :: "'k \<Rightarrow> 'v \<Rightarrow> ('k \<times> 'v) list \<Rightarrow> ('k \<times> 'v) list" where
  "dict_set k v [] = [(k, v)]"
| "dict_set k v ((k', v') # rest) =
     (if k' = k then (k', v) # rest else (k', v') # dict_set k v rest)"

text \<open>
  The dataclass \<^verbatim>\<open>Conversation\<close>. \<^verbatim>\<open>create_time\<close> holds the numeric value: the load
  raises \<^verbatim>\<open>TypeError\<close> for a record whose \<^verbatim>\<open>create_time\<close> is not a number.
\<close>

record conversation =
  conv_id :: json
  title :: json
  create_time :: rat
  update_time :: json
  model :: json
  mapping :: json
  is_archived :: json

record service =
  conversations :: "conversation list"
  by_date :: "(string \<times> conversation list) list"
  by_id :: "(pykey \<times> conversation) list"

definition empty_service :: service where
  "empty_service = \<lparr>conversations = [], by_date = [], by_id = []\<rparr>"

text \<open>
  The bucket of a day: \<^verbatim>\<open>self.by_date[date_key]\<close> of the \<^verbatim>\<open>defaultdict(list)\<close> and
  \<^verbatim>\<open>self.by_date.get(date, [])\<close>.
\<close>

definition bucket_of :: "(string \<times> conversation list) list \<Rightarrow> string \<Rightarrow> conversation list" where
  "bucket_of d k = (case map_of d k of None \<Rightarrow> [] | Some convs \<Rightarrow> convs)"

text \<open>The body of the loop of \<^verbatim>\<open>_load_data\<close> for one record of the export.\<close>

definition load_conv :: "service \<Rightarrow> json \<Rightarrow> py_error + service" where
  "load_conv s conv =
     (case as_dict conv of
        Inl e \<Rightarrow> Inl e
      | Inr d \<Rightarrow>
          let ct = dict_get d ''create_time'' in
          if ct = JNull then Inr s
          else
            let ident = dict_get_default d ''id'' (dict_get_default d ''conversation_id'' (JStr []))
            in (case hash_key ident of
                  Inl e \<Rightarrow> Inl e
                | Inr k \<Rightarrow>
                    (case num_val ct of
                       None \<Rightarrow> Inl TypeError
                     | Some t \<Rightarrow>
                         let c = \<lparr>conv_id = ident,
                                  title = dict_get_default d ''title'' (JStr []),
                                  create_time = t,
                                  update_time = dict_get_default d ''update_time'' ct,
                                  model = dict_get d ''default_model_slug'',
                                  mapping = dict_get_default d ''mapping'' (JDict []),
                                  is_archived = dict_get_default d ''is_archived'' (JBool False)\<rparr>
                         in (case fromtimestamp t of
                               Inl e \<Rightarrow> Inl e
                             | Inr dt \<Rightarrow>
                                 let date_key = strftime_ymd dt
                                 in Inr \<lparr>conversations = conversations s @ [c],
                                         by_date = dict_set date_key (bucket_of (by_date s) date_key @ [c]) (by_date s),
                                         by_id = dict_set k c (by_id s)\<rparr>))))"

fun load_convs :: "service \<Rightarrow> json list \<Rightarrow> py_error + service" where
  "load_convs s [] = Inr s"
| "load_convs s (conv # data) =
     (case load_conv s conv of Inl e \<Rightarrow> Inl e | Inr s' \<Rightarrow> load_convs s' data)"

text \<open>\<^verbatim>\<open>_load_data\<close> on the parsed export, starting from the empty store of \<^verbatim>\<open>__init__\<close>.\<close>

definition load_data :: "json \<Rightarrow> py_error + service" where
  "load_data data =
     (case py_iter data of Inl e \<Rightarrow> Inl e | Inr convs \<Rightarrow> load_convs empty_service convs)"

subsection \<open>\<^verbatim>\<open>get_stats\<close>\<close>

record stats_response =
  totalConversations :: nat
  totalMessages :: nat
  dateRange_start :: string
  dateRange_end :: string
  topModels :: "(pykey \<times> nat) list"

text \<open>\<^verbatim>\<open>model_counts[k] += 1\<close> on the \<^verbatim>\<open>defaultdict(int)\<close>.\<close>

definition incr_count :: "pykey \<Rightarrow> (pykey \<times> nat) list \<Rightarrow> (pykey \<times> nat) list" where
  "incr_count k model_counts =
     dict_set k (Suc (case map_of model_counts k of None \<Rightarrow> 0 | Some n \<Rightarrow> n)) model_counts"

text \<open>The loop over the conversations: the model counter and the message total.\<close>

fun count_stats ::
  "conversation list \<Rightarrow> (pykey \<times> nat) list \<Rightarrow> nat \<Rightarrow> py_error + (pykey \<times> nat) list \<times> nat" where
  "count_stats [] model_counts total_messages = Inr (model_counts, total_messages)"
| "count_stats (c # cs) model_counts total_messages =
     (case (if truthy (model c)
            then (case hash_key (model c) of
                    Inl e \<Rightarrow> Inl e
                  | Inr k \<Rightarrow> Inr (incr_count k model_counts))
            else Inr model_counts) of
        Inl e \<Rightarrow> Inl e
      | Inr model_counts' \<Rightarrow>
          (case message_count (mapping c) of
             Inl e \<Rightarrow> Inl e
           | Inr n \<Rightarrow> count_stats cs model_counts' (total_messages + n)))"

definition get_stats :: "service \<Rightarrow> py_error + stats_response" where
  "get_stats s =
     (if conversations s = []
      then Inr \<lparr>totalConversations = 0, totalMessages = 0, dateRange_start = [], dateRange_end = [],
                topModels = []\<rparr>
      else
        let timestamps = map create_time (conversations s) in
        (case count_stats (conversations s) [] 0 of
           Inl e \<Rightarrow> Inl e
         | Inr (model_counts, total_messages) \<Rightarrow>
             (case fromtimestamp (Min (set timestamps)) of
                Inl e \<Rightarrow> Inl e
              | Inr start_dt \<Rightarrow>
                  (case fromtimestamp (Max (set timestamps)) of
                     Inl e \<Rightarrow> Inl e
                   | Inr end_dt \<Rightarrow>
                       Inr \<lparr>totalConversations = length (conversations s),
                            totalMessages = total_messages,
                            dateRange_start = strftime_ymd start_dt,
                            dateRange_end = strftime_ymd end_dt,
                            topModels = take 10 (sort_key (\<lambda>x. - int (snd x)) model_counts)\<rparr>))))"

subsection \<open>\<^verbatim>\<open>get_conversations_by_date\<close> and \<^verbatim>\<open>get_conversation\<close>\<close>

record conversation_summary =
  sum_id :: json
  sum_title :: json
  sum_createTime :: string
  sum_model :: json
  sum_messageCount :: nat

record conversations_list_response =
  rsp_date :: string
  rsp_conversations :: "conversation_summary list"

text \<open>\<^verbatim>\<open>c.title or "(no title)"\<close>.\<close>

definition title_or_default :: "json \<Rightarrow> json" where
  "title_or_default t = (if truthy t then t else JStr ''(no title)'')"

text \<open>\<^verbatim>\<open>convs_sorted\<close>: the bucket of the day, newest first.\<close>

definition get_by_date :: "service \<Rightarrow> string \<Rightarrow> conversation list" where
  "get_by_date s date =
     sort_key (\<lambda>c. - create_time c) (bucket_of (by_date s) date)"

definition summarize :: "conversation \<Rightarrow> py_error + conversation_summary" where
  "summarize c =
     (case fromtimestamp (create_time c) of
        Inl e \<Rightarrow> Inl e
      | Inr dt \<Rightarrow>
          (case message_count (mapping c) of
             Inl e \<Rightarrow> Inl e
           | Inr n \<Rightarrow>
               Inr \<lparr>sum_id = conv_id c, sum_title = title_or_default (title c),
                    sum_createTime = isoformat dt, sum_model = model c, sum_messageCount = n\<rparr>))"

fun summarize_all :: "conversation list \<Rightarrow> py_error + conversation_summary list" where
  "summarize_all [] = Inr []"
| "summarize_all (c # cs) =
     (case summarize c of
        Inl e \<Rightarrow> Inl e
      | Inr x \<Rightarrow> (case summarize_all cs of Inl e \<Rightarrow> Inl e | Inr xs \<Rightarrow> Inr (x # xs)))"

definition get_conversations_by_date :: "service \<Rightarrow> string \<Rightarrow> py_error + conversations_list_response" where
  "get_conversations_by_date s date =
     (case summarize_all (get_by_date s date) of
        Inl e \<Rightarrow> Inl e
      | Inr summaries \<Rightarrow> Inr \<lparr>rsp_date = date, rsp_conversations = summaries\<rparr>)"

record conversation_detail_response =
  det_id :: json
  det_title :: json
  det_createTime :: string
  det_updateTime :: string
  det_model :: json
  det_messages :: "message_record list"
  det_isArchived :: json

text \<open>\<^verbatim>\<open>get_conversation\<close>: \<open>Inr None\<close> is the not-found result.\<close>

definition get_conversation ::
  "(json \<Rightarrow> string) \<Rightarrow> service \<Rightarrow> string \<Rightarrow> py_error + conversation_detail_response option" where
  "get_conversation py_str s cid =
     (case map_of (by_id s) (KStr cid) of
        None \<Rightarrow> Inr None
      | Some c \<Rightarrow>
          (case linearize_messages py_str (mapping c) of
             Inl e \<Rightarrow> Inl e
           | Inr messages \<Rightarrow>
               (case fromtimestamp (create_time c) of
                  Inl e \<Rightarrow> Inl e
                | Inr cdt \<Rightarrow>
                    (case num_val (update_time c) of
                       None \<Rightarrow> Inl TypeError
                     | Some u \<Rightarrow>
                         (case fromtimestamp u of
                            Inl e \<Rightarrow> Inl e
                          | Inr udt \<Rightarrow>
                              Inr (Some \<lparr>det_id = conv_id c, det_title = title_or_default (title c),
                                         det_createTime = isoformat cdt, det_updateTime = isoformat udt,
                                         det_model = model c, det_messages = messages,
                                         det_isArchived = is_archived c\<rparr>))))))"

subsection \<open>\<^verbatim>\<open>get_contribution\<close>\<close>

definition digit_val :: "char \<Rightarrow> nat option" where
  "digit_val c = (let k = of_char c :: nat in if 48 \<le> k \<and> k \<le> 57 then Some (k - 48) else None)"

fun parse_digits :: "nat \<Rightarrow> string \<Rightarrow> nat option" where
  "parse_digits acc [] = Some acc"
| "parse_digits acc (c # cs) =
     (case digit_val c of None \<Rightarrow> None | Some d \<Rightarrow> parse_digits (10 * acc + d) cs)"

text \<open>
  \<^verbatim>\<open>datetime.fromisoformat\<close> on a date without a time, \<^verbatim>\<open>YYYY-MM-DD\<close>, the only form of
  the keys of \<^verbatim>\<open>by_date\<close>; \<^verbatim>\<open>ValueError\<close> otherwise.
\<close>

definition fromisoformat :: "string \<Rightarrow> py_error + datetime" where
  "fromisoformat s =
     (if length s = 10 \<and> s ! 4 = CHR ''-'' \<and> s ! 7 = CHR ''-''
      then (case (parse_digits 0 (take 4 s), parse_digits 0 (take 2 (drop 5 s)), parse_digits 0 (drop 8 s)) of
              (Some y, Some m, Some d) \<Rightarrow>
                if 1 \<le> y \<and> 1 \<le> m \<and> m \<le> 12 \<and> 1 \<le> d \<and> d \<le> days_in_month (int y) m
                then Inr \<lparr>dt_year = int y, dt_month = m, dt_day = d, dt_hour = 0, dt_minute = 0,
                          dt_second = 0, dt_microsecond = 0\<rparr>
                else Inl ValueError
            | _ \<Rightarrow> Inl ValueError)
      else Inl ValueError)"

record contribution_response =
  con_year :: int
  con_days :: "(string \<times> nat) list"
  con_max :: nat
  con_total :: nat

text \<open>\<^verbatim>\<open>f"{year}-{month:02d}-{day:02d}"\<close>.\<close>

definition format_key :: "int \<Rightarrow> nat \<Rightarrow> nat \<Rightarrow> string" where
  "format_key year month day = str_int year @ ''-'' @ zero_pad 2 month @ ''-'' @ zero_pad 2 day"

text \<open>The first pair of loops: every day of the year, in calendar order, set to 0.\<close>

definition year_keys :: "int \<Rightarrow> string list" where
  "year_keys year =
     concat (map (\<lambda>month. map (format_key year month) [1..<Suc (days_in_month year month)]) [1..<13])"

definition init_days :: "int \<Rightarrow> (string \<times> nat) list" where
  "init_days year = fold (\<lambda>date_key all_days. dict_set date_key 0 all_days) (year_keys year) []"

text \<open>The second loop: the counts of the buckets whose key parses to a date of the year.\<close>

fun fill_counts ::
  "int \<Rightarrow> (string \<times> conversation list) list \<Rightarrow> (string \<times> nat) list \<Rightarrow> py_error + (string \<times> nat) list" where
  "fill_counts year [] all_days = Inr all_days"
| "fill_counts year ((date_key, convs) # items) all_days =
     (case fromisoformat date_key of
        Inl e \<Rightarrow> Inl e
      | Inr dt \<Rightarrow>
          fill_counts year items
            (if dt_year dt = year then dict_set date_key (length convs) all_days else all_days))"

definition get_contribution :: "service \<Rightarrow> int \<Rightarrow> py_error + contribution_response" where
  "get_contribution s year =
     (case fill_counts year (by_date s) (init_days year) of
        Inl e \<Rightarrow> Inl e
      | Inr all_days \<Rightarrow>
          Inr \<lparr>con_year = year,
               con_days = sort_key fst all_days,
               con_max = (if all_days \<noteq> [] then Max (set (map snd all_days)) else 0),
               con_total = sum_list (map snd all_days)\<rparr>)"

section \<open>Notions used to state the properties of the store\<close>

text \<open>The UTC calendar day of a timestamp, as \<^verbatim>\<open>_load_data\<close> writes it for the key of a bucket.\<close>

definition utc_day :: "rat \<Rightarrow> py_error + string" where
  "utc_day t = (case fromtimestamp t of Inl e \<Rightarrow> Inl e | Inr dt \<Rightarrow> Inr (strftime_ymd dt))"

text \<open>The conversations of a list that a dict files under the key \<open>k\<close>.\<close>

definition with_key :: "pykey \<Rightarrow> conversation list \<Rightarrow> conversation list" where
  "with_key k cs = filter (\<lambda>c. hash_key (conv_id c) = Inr k) cs"

text \<open>A key of \<^verbatim>\<open>by_date\<close> that \<^verbatim>\<open>get_contribution\<close> takes for a day of the year.\<close>

definition in_year :: "int \<Rightarrow> string \<Rightarrow> bool" where
  "in_year year k = (case fromisoformat k of Inl e \<Rightarrow> False | Inr dt \<Rightarrow> dt_year dt = year)"

text \<open>
  The keys of the non-empty \<^verbatim>\<open>model\<close> values of a corpus, in corpus order; the distinct
  elements of a list in the order of their first occurrence; and each distinct model with
  its number of occurrences, in the order of first occurrence.
\<close>

definition model_keys :: "conversation list \<Rightarrow> pykey list" where
  "model_keys cs =
     concat (map (\<lambda>c. if truthy (model c)
                        then (case hash_key (model c) of Inl e \<Rightarrow> [] | Inr k \<Rightarrow> [k])
                        else []) cs)"

definition first_occurrences :: "'a list \<Rightarrow> 'a list" where
  "first_occurrences xs = rev (remdups (rev xs))"

definition model_frequencies :: "pykey list \<Rightarrow> (pykey \<times> nat) list" where
  "model_frequencies ks = map (\<lambda>k. (k, count_list ks k)) (first_occurrences ks)"

text \<open>
  What holds of a store at every turn of the loop of \<^verbatim>\<open>_load_data\<close>: the keys of both
  indices are distinct; a bucket holds, in load order, the conversations of its day, and is
  not empty; \<^verbatim>\<open>by_id\<close> holds under a key the last conversation loaded with it; and every
  conversation has a hashable id and a \<^verbatim>\<open>create_time\<close> that converts to a date.
\<close>

definition store_ok :: "service \<Rightarrow> bool" where
  "store_ok s =
     (distinct (map fst (by_date s))
      \<and> distinct (map fst (by_id s))
      \<and> (\<forall>k. bucket_of (by_date s) k = filter (\<lambda>c. utc_day (create_time c) = Inr k) (conversations s))
      \<and> (\<forall>k. k \<in> fst ` set (by_date s) \<longleftrightarrow> bucket_of (by_date s) k \<noteq> [])
      \<and> (\<forall>k. map_of (by_id s) k =
               (if with_key k (conversations s) = [] then None else Some (last (with_key k (conversations s)))))
      \<and> list_all (\<lambda>c. (\<exists>dt. fromtimestamp (create_time c) = Inr dt) \<and> (\<exists>k. hash_key (conv_id c) = Inr k))
           (conversations s))"

section \<open>Mappings the normalizer accepts\<close>

text \<open>
  The shape of a mapping on which no step of \<^verbatim>\<open>_linearize_messages\<close> raises: every node is
  an object; a message that is not falsy is an object whose \<^verbatim>\<open>author\<close> and \<^verbatim>\<open>content\<close>, when
  present, are objects; \<^verbatim>\<open>parts\<close> is falsy or iterable, and an object among the parts has a
  string under \<^verbatim>\<open>text\<close> if it has that key; \<^verbatim>\<open>create_time\<close> is falsy or a number.
\<close>

fun wf_part :: "json \<Rightarrow> bool" where
  "wf_part (JDict kvs) = (case map_of kvs ''text'' of Some (JStr s) \<Rightarrow> True | Some _ \<Rightarrow> False | None \<Rightarrow> True)"
| "wf_part _ = True"

fun wf_parts :: "json \<Rightarrow> bool" where
  "wf_parts (JList ps) = list_all wf_part ps"
| "wf_parts (JStr s) = True"
| "wf_parts (JDict kvs) = True"
| "wf_parts JNull = True"
| "wf_parts (JBool b) = (\<not> b)"
| "wf_parts (JNum r) = (r = 0)"

fun wf_create_time :: "json \<Rightarrow> bool" where
  "wf_create_time (JStr s) = (s = [])"
| "wf_create_time (JList xs) = (xs = [])"
| "wf_create_time (JDict kvs) = (kvs = [])"
| "wf_create_time _ = True"

fun is_dict :: "json \<Rightarrow> bool" where
  "is_dict (JDict kvs) = True"
| "is_dict _ = False"

fun wf_content :: "json \<Rightarrow> bool" where
  "wf_content (JDict c) = wf_parts (dict_get_default c ''parts'' (JList []))"
| "wf_content _ = False"

fun wf_message :: "json \<Rightarrow> bool" where
  "wf_message (JDict m) =
     (is_dict (dict_get_default m ''author'' (JDict []))
      \<and> wf_content (dict_get_default m ''content'' (JDict []))
      \<and> wf_create_time (dict_get m ''create_time''))"
| "wf_message msg = (\<not> truthy msg)"

fun wf_node :: "json \<Rightarrow> bool" where
  "wf_node (JDict nd) = wf_message (dict_get nd ''message'')"
| "wf_node _ = False"

fun wf_mapping :: "json \<Rightarrow> bool" where
  "wf_mapping (JDict items) = list_all (\<lambda>kv. wf_node (snd kv)) items"
| "wf_mapping _ = False"


section \<open>Example inputs\<close>

definition ex_mapping :: json where
  "ex_mapping =
     JDict [(''a'', JDict [(''message'', JDict [(''create_time'', JNum (- 5))])]),
            (''root'', JDict [(''message'', JNull)]),
            (''b'', JDict [(''message'', JDict [(''id'', JStr ''m'')])])]"


definition ex_two_messages :: json where
  "ex_two_messages =
     JDict [(''n0'', JDict [(''message'', JNull)]),
            (''n2'', JDict [(''message'',
               JDict [(''create_time'', JNum 1700000002),
                      (''content'', JDict [(''parts'', JList [JStr ''World''])])])]),
            (''n1'', JDict [(''message'',
               JDict [(''create_time'', JNum 1700000001),
                      (''content'', JDict [(''parts'', JList [JStr ''Hello''])])])])]"

definition ex_conv :: conversation where
  "ex_conv = \<lparr>conv_id = JStr ''c1'', title = JStr ''Trip planning'', create_time = 1700000000,
              update_time = JNum 1700000000, model = JStr ''gpt-4'', mapping = ex_two_messages,
              is_archived = JBool False\<rparr>"

definition ex_record :: json where
  "ex_record = JDict [(''id'', JStr ''c1''), (''create_time'', JNum 1700000000),
                      (''title'', JStr ''Trip planning''), (''default_model_slug'', JStr ''gpt-4''),
                      (''mapping'', ex_two_messages)]"

definition ex_service :: service where
  "ex_service = \<lparr>conversations = [ex_conv], by_date = [(''2023-11-14'', [ex_conv])],
                  by_id = [(KStr ''c1'', ex_conv)]\<rparr>"

definition ex_model_conv :: "string \<Rightarrow> string \<Rightarrow> conversation" where
  "ex_model_conv i m =
     \<lparr>conv_id = JStr i, title = JStr [], create_time = 1700000000, update_time = JNum 1700000000,
      model = JStr m, mapping = JDict [], is_archived = JBool False\<rparr>"

definition ex_model_service :: service where
  "ex_model_service =
     \<lparr>conversations = [ex_model_conv ''a'' ''o1'', ex_model_conv ''b'' ''gpt-4'',
                        ex_model_conv ''c'' ''gpt-3.5'', ex_model_conv ''d'' ''gpt-4''],
      by_date = [(''2023-11-14'', [ex_model_conv ''a'' ''o1'', ex_model_conv ''b'' ''gpt-4'',
                                   ex_model_conv ''c'' ''gpt-3.5'', ex_model_conv ''d'' ''gpt-4''])],
      by_id = [(KStr ''a'', ex_model_conv ''a'' ''o1''), (KStr ''b'', ex_model_conv ''b'' ''gpt-4''),
               (KStr ''c'', ex_model_conv ''c'' ''gpt-3.5''), (KStr ''d'', ex_model_conv ''d'' ''gpt-4'')]\<rparr>"

definition ex_999_conv :: conversation where
  "ex_999_conv =
     \<lparr>conv_id = JStr ''c1'', title = JStr [], create_time = - 30610224001,
      update_time = JNum (- 30610224001), model = JNull, mapping = JDict [],
      is_archived = JBool False\<rparr>"

definition ex_999_service :: service where
  "ex_999_service =
     \<lparr>conversations = [ex_999_conv], by_date = [(''0999-12-31'', [ex_999_conv])],
      by_id = [(KStr ''c1'', ex_999_conv)]\<rparr>"

section \<open>Properties of the normalizer\<close>










lemma node_message_numeric:
  "node_message py_str node = Inr (Some m) \<Longrightarrow> \<not> truthy (createTime m) \<or> num_val (createTime m) \<noteq> None"
  by (cases node)
     (auto simp: node_message_def Let_def extract_timestamp_def gt_zero_def
           split: sum.splits if_splits option.splits)

lemma collect_messages_numeric:
  "collect_messages py_str items = Inr ms \<Longrightarrow>
     \<forall>m\<in>set ms. \<not> truthy (createTime m) \<or> num_val (createTime m) \<noteq> None"
proof (induction items arbitrary: ms)
  case Nil
  then show ?case by simp
next
  case (Cons kv items)
  obtain k node where kv: "kv = (k, node)" by (cases kv)
  from Cons.prems kv obtain r where r: "node_message py_str node = Inr r"
    by (auto split: sum.splits)
  show ?case
  proof (cases r)
    case None
    with Cons.prems kv r have "collect_messages py_str items = Inr ms" by simp
    from Cons.IH[OF this] show ?thesis .
  next
    case (Some m)
    with Cons.prems kv r obtain ms' where ms': "collect_messages py_str items = Inr ms'" "ms = m # ms'"
      by (auto split: sum.splits)
    from node_message_numeric[of py_str node m] r Some
    have "\<not> truthy (createTime m) \<or> num_val (createTime m) \<noteq> None" by simp
    with Cons.IH[OF ms'(1)] ms'(2) show ?thesis by simp
  qed
qed

lemma sort_key_of_JNum: "createTime m = JNum r \<Longrightarrow> sort_key_of m = r"
  by (simp add: sort_key_of_def)

lemma sort_key_of_falsy: "\<not> truthy (createTime m) \<Longrightarrow> sort_key_of m = 0"
  by (simp add: sort_key_of_def)

lemma ex_two_messages_linearized:
  "linearize_messages (\<lambda>v. []) ex_two_messages =
     Inr [\<lparr>msg_id = JNull, role = JNull, name = JNull, content = ''Hello'',
            createTime = JNum 1700000001, timestamp = Some ''2023-11-14T22:13:21+00:00''\<rparr>,
          \<lparr>msg_id = JNull, role = JNull, name = JNull, content = ''World'',
            createTime = JNum 1700000002, timestamp = Some ''2023-11-14T22:13:22+00:00''\<rparr>]"
  by code_simp

lemma ex_mapping_linearized:
  "linearize_messages (\<lambda>v. []) ex_mapping =
     Inr [\<lparr>msg_id = JNull, role = JNull, name = JNull, content = [], createTime = JNum (- 5),
            timestamp = None\<rparr>,
          \<lparr>msg_id = JStr ''m'', role = JNull, name = JNull, content = [], createTime = JNull,
            timestamp = None\<rparr>]"
  by code_simp



text \<open>
  C1 (as amended). Whenever the normalizer returns, its result is the stable sort of the
  messages in mapping order, ascending by the key \<^verbatim>\<open>createTime or 0\<close>: the numeric value of
  a truthy \<^verbatim>\<open>createTime\<close>, and 0 for a missing, null or otherwise falsy one. So a message
  without \<^verbatim>\<open>createTime\<close> stands before every message with a positive \<^verbatim>\<open>createTime\<close> and
  after every message with a negative one.
\<close>

theorem linearize_sorted_stable:
  assumes "linearize_messages py_str mp = Inr msgs"
  shows "\<exists>items ms.
           mp = JDict items \<and> collect_messages py_str items = Inr ms
           \<and> mset msgs = mset ms
           \<and> sorted (map sort_key_of msgs)
           \<and> (\<forall>k. filter (\<lambda>m. sort_key_of m = k) msgs = filter (\<lambda>m. sort_key_of m = k) ms)
           \<and> (\<forall>m\<in>set msgs.
                 (\<not> truthy (createTime m) \<and> sort_key_of m = 0)
                 \<or> (truthy (createTime m) \<and> num_val (createTime m) = Some (sort_key_of m)))
           \<and> (\<forall>i j. i < length msgs \<and> j < length msgs
                    \<and> \<not> truthy (createTime (msgs ! i)) \<and> 0 < sort_key_of (msgs ! j) \<longrightarrow> i < j)
           \<and> (\<forall>i j. i < length msgs \<and> j < length msgs
                    \<and> \<not> truthy (createTime (msgs ! i)) \<and> sort_key_of (msgs ! j) < 0 \<longrightarrow> j < i)"
proof -
  from assms obtain items where items: "mp = JDict items"
    by (cases mp) (auto simp: linearize_messages_def)
  from assms items obtain ms where ms: "collect_messages py_str items = Inr ms"
    and msgs: "msgs = sort_key sort_key_of ms"
    by (auto simp: linearize_messages_def split: sum.splits)
  have srt: "sorted (map sort_key_of msgs)" using msgs by simp
  have perm: "mset msgs = mset ms" using msgs by simp
  have stab: "\<forall>k. filter (\<lambda>m. sort_key_of m = k) msgs = filter (\<lambda>m. sort_key_of m = k) ms"
    using msgs by (simp add: sort_key_stable)
  have keys: "\<forall>m\<in>set msgs.
                 (\<not> truthy (createTime m) \<and> sort_key_of m = 0)
                 \<or> (truthy (createTime m) \<and> num_val (createTime m) = Some (sort_key_of m))"
  proof
    fix m assume "m \<in> set msgs"
    then have "m \<in> set ms" using msgs by simp
    with collect_messages_numeric[OF ms]
    have "\<not> truthy (createTime m) \<or> num_val (createTime m) \<noteq> None" by blast
    then show "(\<not> truthy (createTime m) \<and> sort_key_of m = 0)
                 \<or> (truthy (createTime m) \<and> num_val (createTime m) = Some (sort_key_of m))"
      by (auto simp: sort_key_of_def)
  qed
  have first: "\<forall>i j. i < length msgs \<and> j < length msgs
                    \<and> \<not> truthy (createTime (msgs ! i)) \<and> 0 < sort_key_of (msgs ! j) \<longrightarrow> i < j"
  proof (intro allI impI)
    fix i j
    assume h: "i < length msgs \<and> j < length msgs
                    \<and> \<not> truthy (createTime (msgs ! i)) \<and> 0 < sort_key_of (msgs ! j)"
    then have ki: "sort_key_of (msgs ! i) = 0" by (simp add: sort_key_of_falsy)
    show "i < j"
    proof (rule ccontr)
      assume "\<not> i < j"
      then have "j \<le> i" by simp
      with srt h have "map sort_key_of msgs ! j \<le> map sort_key_of msgs ! i"
        by (intro sorted_nth_mono) auto
      with h ki show False by simp
    qed
  qed
  have last: "\<forall>i j. i < length msgs \<and> j < length msgs
                    \<and> \<not> truthy (createTime (msgs ! i)) \<and> sort_key_of (msgs ! j) < 0 \<longrightarrow> j < i"
  proof (intro allI impI)
    fix i j
    assume h: "i < length msgs \<and> j < length msgs
                    \<and> \<not> truthy (createTime (msgs ! i)) \<and> sort_key_of (msgs ! j) < 0"
    then have ki: "sort_key_of (msgs ! i) = 0" by (simp add: sort_key_of_falsy)
    show "j < i"
    proof (rule ccontr)
      assume "\<not> j < i"
      then have "i \<le> j" by simp
      with srt h have "map sort_key_of msgs ! i \<le> map sort_key_of msgs ! j"
        by (intro sorted_nth_mono) auto
      with h ki show False by simp
    qed
  qed
  from items ms perm srt stab keys first last show ?thesis by blast
qed

theorem linearize_sorted_stable_witness:
  "linearize_messages (\<lambda>v. []) ex_two_messages =
     Inr [\<lparr>msg_id = JNull, role = JNull, name = JNull, content = ''Hello'',
            createTime = JNum 1700000001, timestamp = Some ''2023-11-14T22:13:21+00:00''\<rparr>,
          \<lparr>msg_id = JNull, role = JNull, name = JNull, content = ''World'',
            createTime = JNum 1700000002, timestamp = Some ''2023-11-14T22:13:22+00:00''\<rparr>]
   \<and> sorted (map sort_key_of
        [\<lparr>msg_id = JNull, role = JNull, name = JNull, content = ''Hello'',
            createTime = JNum 1700000001, timestamp = Some ''2023-11-14T22:13:21+00:00''\<rparr>,
          \<lparr>msg_id = JNull, role = JNull, name = JNull, content = ''World'',
            createTime = JNum 1700000002, timestamp = Some ''2023-11-14T22:13:22+00:00''\<rparr>])"
  using linearize_sorted_stable[OF ex_two_messages_linearized] ex_two_messages_linearized
  by blast

text \<open>
  The claim as stated fails: a message with \<^verbatim>\<open>createTime\<close> \<open>-5\<close> sorts before a message
  without \<^verbatim>\<open>createTime\<close>, whose key is 0.
\<close>

theorem linearize_missing_not_first_counterexample:
  "linearize_messages (\<lambda>v. [])
     (JDict [(''a'', JDict [(''message'', JDict [(''create_time'', JNum (- 5))])]),
             (''root'', JDict [(''message'', JNull)]),
             (''b'', JDict [(''message'', JDict [(''id'', JStr ''m'')])])]) =
     Inr [\<lparr>msg_id = JNull, role = JNull, name = JNull, content = [], createTime = JNum (- 5),
            timestamp = None\<rparr>,
          \<lparr>msg_id = JStr ''m'', role = JNull, name = JNull, content = [], createTime = JNull,
            timestamp = None\<rparr>]"
  using ex_mapping_linearized by (simp add: ex_mapping_def)





text \<open>
  The accepted shape is exact: the normalizer returns on no other mapping.
\<close>

lemma part_text_only_wf: "part_text py_str p = Inr s \<Longrightarrow> wf_part p"
  by (cases p) (auto split: option.splits json.splits)

lemma concat_parts_only_wf: "concat_parts py_str acc ps = Inr s \<Longrightarrow> list_all wf_part ps"
proof (induction ps arbitrary: acc)
  case Nil
  show ?case by simp
next
  case (Cons p ps)
  from Cons.prems obtain t where t: "part_text py_str p = Inr t"
    and r: "concat_parts py_str (acc @ t) ps = Inr s"
    by (auto split: sum.splits)
  from part_text_only_wf[OF t] Cons.IH[OF r] show ?case by simp
qed

lemma extract_content_only_wf: "extract_content py_str parts = Inr s \<Longrightarrow> wf_parts parts"
  by (cases parts)
     (auto simp: extract_content_def split: if_splits sum.splits dest: concat_parts_only_wf)

lemma extract_timestamp_only_wf: "extract_timestamp ct = Inr ts \<Longrightarrow> wf_create_time ct"
  by (cases ct) (auto simp: extract_timestamp_def gt_zero_def split: if_splits sum.splits)

lemma node_message_only_wf:
  assumes "node_message py_str node = Inr r"
  shows "wf_node node"
proof -
  from assms obtain nd where nd: "node = JDict nd"
    by (cases node) (auto simp: node_message_def)
  show ?thesis
  proof (cases "truthy (dict_get nd ''message'')")
    case False
    then show ?thesis using nd
      by (cases "dict_get nd ''message''") (auto simp: dict_get_def dict_get_default_def)
  next
    case True
    with assms nd obtain m where m: "dict_get nd ''message'' = JDict m"
      by (cases "dict_get nd ''message''") (auto simp: node_message_def)
    from assms nd True m obtain c where c: "dict_get_default m ''content'' (JDict []) = JDict c"
      by (cases "dict_get_default m ''content'' (JDict [])") (auto simp: node_message_def Let_def)
    from assms nd True m c obtain s where
      s: "extract_content py_str (dict_get_default c ''parts'' (JList [])) = Inr s"
      by (auto simp: node_message_def Let_def split: sum.splits)
    from assms nd True m c s obtain ts where
      ts: "extract_timestamp (dict_get m ''create_time'') = Inr ts"
      by (auto simp: node_message_def Let_def split: sum.splits)
    from assms nd True m c s ts obtain a where a: "dict_get_default m ''author'' (JDict []) = JDict a"
      by (cases "dict_get_default m ''author'' (JDict [])") (auto simp: node_message_def Let_def)
    from extract_content_only_wf[OF s] extract_timestamp_only_wf[OF ts] nd m c a
    show ?thesis by simp
  qed
qed

lemma collect_messages_only_wf:
  "collect_messages py_str items = Inr ms \<Longrightarrow> list_all (\<lambda>kv. wf_node (snd kv)) items"
proof (induction items arbitrary: ms)
  case Nil
  show ?case by simp
next
  case (Cons kv items)
  obtain k node where kv: "kv = (k, node)" by (cases kv)
  from Cons.prems kv obtain r where r: "node_message py_str node = Inr r"
    by (auto split: sum.splits)
  from Cons.prems kv r obtain ms' where "collect_messages py_str items = Inr ms'"
    by (cases r) (auto split: sum.splits)
  from Cons.IH[OF this] node_message_only_wf[OF r] kv show ?case by simp
qed

lemma linearize_returns_only_on_wf:
  "linearize_messages py_str mp = Inr msgs \<Longrightarrow> wf_mapping mp"
  by (cases mp)
     (auto simp: linearize_messages_def split: sum.splits dest: collect_messages_only_wf)

section \<open>Properties of the store\<close>

lemma map_of_dict_set: "map_of (dict_set k v al) k' = (if k' = k then Some v else map_of al k')"
  by (induction al) auto

lemma keys_dict_set:
  "map fst (dict_set k v al) = (if k \<in> set (map fst al) then map fst al else map fst al @ [k])"
proof (induction al)
  case Nil
  show ?case by simp
next
  case (Cons p al)
  obtain k' v' where p: "p = (k', v')" by (cases p)
  show ?case
  proof (cases "k' = k")
    case True
    with p show ?thesis by simp
  next
    case False
    with p Cons.IH show ?thesis by simp
  qed
qed

lemma fst_set_dict_set: "fst ` set (dict_set k v al) = insert k (fst ` set al)"
proof -
  have "set (map fst (dict_set k v al)) = insert k (set (map fst al))"
    unfolding keys_dict_set by auto
  then show ?thesis by simp
qed

lemma distinct_dict_set: "distinct (map fst al) \<Longrightarrow> distinct (map fst (dict_set k v al))"
  unfolding keys_dict_set by simp

lemma length_dict_set:
  "length (dict_set k v al) = (if k \<in> set (map fst al) then length al else Suc (length al))"
proof -
  have "length (dict_set k v al) = length (map fst (dict_set k v al))" by simp
  also have "\<dots> = (if k \<in> set (map fst al) then length al else Suc (length al))"
    unfolding keys_dict_set by simp
  finally show ?thesis .
qed

lemma bucket_of_dict_set:
  "bucket_of (dict_set k v al) k' = (if k' = k then v else bucket_of al k')"
  by (simp add: bucket_of_def map_of_dict_set)

lemma load_conv_cases:
  assumes "load_conv s conv = Inr s'"
  shows "s' = s \<or>
         (\<exists>c k dt. hash_key (conv_id c) = Inr k \<and> fromtimestamp (create_time c) = Inr dt
            \<and> s' = \<lparr>conversations = conversations s @ [c],
                     by_date = dict_set (strftime_ymd dt) (bucket_of (by_date s) (strftime_ymd dt) @ [c]) (by_date s),
                     by_id = dict_set k c (by_id s)\<rparr>)"
proof -
  from assms obtain d where d: "as_dict conv = Inr d"
    by (auto simp: load_conv_def split: sum.splits)
  show ?thesis
  proof (cases "dict_get d ''create_time'' = JNull")
    case True
    with assms d show ?thesis by (simp add: load_conv_def)
  next
    case False
    define ident where "ident = dict_get_default d ''id'' (dict_get_default d ''conversation_id'' (JStr []))"
    from assms d False obtain k where k: "hash_key ident = Inr k"
      by (auto simp: load_conv_def Let_def ident_def split: sum.splits)
    from assms d False k obtain t where t: "num_val (dict_get d ''create_time'') = Some t"
      by (auto simp: load_conv_def Let_def ident_def split: option.splits)
    from assms d False k t obtain dt where dt: "fromtimestamp t = Inr dt"
      by (auto simp: load_conv_def Let_def ident_def split: sum.splits)
    define c where "c = \<lparr>conv_id = ident,
                                  title = dict_get_default d ''title'' (JStr []),
                                  create_time = t,
                                  update_time = dict_get_default d ''update_time'' (dict_get d ''create_time''),
                                  model = dict_get d ''default_model_slug'',
                                  mapping = dict_get_default d ''mapping'' (JDict []),
                                  is_archived = dict_get_default d ''is_archived'' (JBool False)\<rparr>"
    have "hash_key (conv_id c) = Inr k" "fromtimestamp (create_time c) = Inr dt"
      using k dt by (simp_all add: c_def)
    moreover from assms d False k t dt
    have "s' = \<lparr>conversations = conversations s @ [c],
                     by_date = dict_set (strftime_ymd dt) (bucket_of (by_date s) (strftime_ymd dt) @ [c]) (by_date s),
                     by_id = dict_set k c (by_id s)\<rparr>"
      by (simp add: load_conv_def Let_def ident_def c_def)
    ultimately show ?thesis by blast
  qed
qed

lemma store_ok_empty: "store_ok empty_service"
  by (simp add: store_ok_def empty_service_def bucket_of_def with_key_def)

lemma store_ok_step:
  assumes ok: "store_ok s"
    and hk: "hash_key (conv_id c) = Inr k"
    and ft: "fromtimestamp (create_time c) = Inr dt"
  shows "store_ok \<lparr>conversations = conversations s @ [c],
                     by_date = dict_set (strftime_ymd dt) (bucket_of (by_date s) (strftime_ymd dt) @ [c]) (by_date s),
                     by_id = dict_set k c (by_id s)\<rparr>"
proof -
  have ud: "utc_day (create_time c) = Inr (strftime_ymd dt)" using ft by (simp add: utc_day_def)
  from ok have d1: "distinct (map fst (by_date s))" and d2: "distinct (map fst (by_id s))"
    and b: "\<And>k. bucket_of (by_date s) k = filter (\<lambda>c. utc_day (create_time c) = Inr k) (conversations s)"
    and ne: "\<And>k. k \<in> fst ` set (by_date s) \<longleftrightarrow> bucket_of (by_date s) k \<noteq> []"
    and m: "\<And>k. map_of (by_id s) k =
               (if with_key k (conversations s) = [] then None else Some (last (with_key k (conversations s))))"
    and la: "list_all (\<lambda>c. (\<exists>dt. fromtimestamp (create_time c) = Inr dt) \<and> (\<exists>k. hash_key (conv_id c) = Inr k))
           (conversations s)"
    by (simp_all add: store_ok_def)
  show ?thesis
    unfolding store_ok_def
    using d1 d2 la hk ft ud
    by (auto simp: distinct_dict_set bucket_of_dict_set b fst_set_dict_set ne map_of_dict_set m with_key_def)
qed

lemma load_conv_ok: "store_ok s \<Longrightarrow> load_conv s conv = Inr s' \<Longrightarrow> store_ok s'"
  using load_conv_cases[of s conv s'] store_ok_step[of s] by blast

lemma load_convs_ok: "store_ok s \<Longrightarrow> load_convs s data = Inr s' \<Longrightarrow> store_ok s'"
proof (induction data arbitrary: s)
  case Nil
  then show ?case by simp
next
  case (Cons conv data)
  from Cons.prems(2) obtain s1 where s1: "load_conv s conv = Inr s1" "load_convs s1 data = Inr s'"
    by (auto split: sum.splits)
  from load_conv_ok[OF Cons.prems(1) s1(1)] Cons.IH s1(2) show ?case by blast
qed

lemma load_data_ok: "load_data data = Inr s \<Longrightarrow> store_ok s"
  by (auto simp: load_data_def split: sum.splits intro: load_convs_ok[OF store_ok_empty])

lemma ex_load: "load_data (JList [ex_record]) = Inr ex_service"
  by code_simp

lemma ex_stats: "get_stats ex_service = Inr \<lparr>totalConversations = 1, totalMessages = 2,
   dateRange_start = ''2023-11-14'', dateRange_end = ''2023-11-14'', topModels = [(KStr ''gpt-4'', 1)]\<rparr>"
  by code_simp

lemma load_convs_append:
  "load_convs s (xs @ ys) = (case load_convs s xs of Inl e \<Rightarrow> Inl e | Inr s' \<Rightarrow> load_convs s' ys)"
  by (induction xs arbitrary: s) (auto split: sum.splits)

text \<open>
  C4. A record without a \<^verbatim>\<open>create_time\<close> field is skipped without an error: the loop
  leaves the store as it was, so the load of an export with the record is the load of the
  export without it (the same conversations, \<^verbatim>\<open>by_id\<close> and \<^verbatim>\<open>by_date\<close>).
\<close>

theorem load_skips_record_without_create_time:
  assumes "map_of d ''create_time'' = None"
  shows "load_conv s (JDict d) = Inr s
         \<and> load_data (JList (xs @ JDict d # ys)) = load_data (JList (xs @ ys))"
proof -
  have step: "\<And>s'. load_conv s' (JDict d) = Inr s'"
    using assms by (simp add: load_conv_def dict_get_def)
  have "load_convs empty_service (xs @ JDict d # ys) = load_convs empty_service (xs @ ys)"
    by (simp add: load_convs_append step split: sum.splits)
  with step show ?thesis by (simp add: load_data_def)
qed

theorem load_skips_record_without_create_time_witness:
  "map_of [(''id'', JStr ''c2''), (''title'', JStr ''skipped'')] ''create_time'' = None
   \<and> load_conv ex_service (JDict [(''id'', JStr ''c2''), (''title'', JStr ''skipped'')]) = Inr ex_service
   \<and> load_data (JList [ex_record, JDict [(''id'', JStr ''c2''), (''title'', JStr ''skipped'')]]) = Inr ex_service"
proof -
  have a: "map_of [(''id'', JStr ''c2''), (''title'', JStr ''skipped'')] ''create_time'' = None"
    by simp
  from load_skips_record_without_create_time[OF a, of ex_service "[ex_record]" "[]"] ex_load a
  show ?thesis by simp
qed

text \<open>
  C10. For every string \<open>d\<close>, well-formed date or not: when no bucket has exactly the key
  \<open>d\<close>, \<^verbatim>\<open>get_conversations_by_date\<close> returns the response with \<open>d\<close> and an empty list,
  raising nothing; and every response it returns carries \<open>d\<close>.
\<close>

theorem get_conversations_by_date_no_bucket:
  "(map_of (by_date s) d = None \<longrightarrow>
      get_conversations_by_date s d = Inr \<lparr>rsp_date = d, rsp_conversations = []\<rparr>)
   \<and> (\<forall>r. get_conversations_by_date s d = Inr r \<longrightarrow> rsp_date r = d)"
  by (auto simp: get_conversations_by_date_def get_by_date_def bucket_of_def split: sum.splits)

theorem get_conversations_by_date_no_bucket_witness:
  "map_of (by_date ex_service) ''last tuesday'' = None
   \<and> get_conversations_by_date ex_service ''last tuesday'' =
       Inr \<lparr>rsp_date = ''last tuesday'', rsp_conversations = []\<rparr>"
proof -
  have a: "map_of (by_date ex_service) ''last tuesday'' = None"
    by (simp add: ex_service_def)
  from get_conversations_by_date_no_bucket[of ex_service "''last tuesday''"] a
  show ?thesis by blast
qed

lemma get_stats_total:
  "get_stats s = Inr r \<Longrightarrow> totalConversations r = length (conversations s)"
  by (auto simp: get_stats_def Let_def split: if_splits sum.splits prod.splits)

lemma map_of_keys: "(map_of al k \<noteq> None) = (k \<in> fst ` set al)"
  by (simp add: map_of_eq_None_iff)

text \<open>
  C8 (as amended). After a load, \<^verbatim>\<open>by_id\<close> has one entry per distinct id among the loaded
  conversations, holding the last conversation loaded with that id. The number of its
  entries is at most the conversation count that \<^verbatim>\<open>get_stats\<close> reports, and equal to it
  exactly when the ids of the loaded conversations are pairwise distinct.
\<close>

theorem by_id_one_entry_per_distinct_id:
  assumes "load_data data = Inr s"
  shows "distinct (map fst (by_id s))
         \<and> (\<forall>k. map_of (by_id s) k =
                (if with_key k (conversations s) = [] then None
                 else Some (last (with_key k (conversations s)))))
         \<and> length (by_id s) = card (set (map (\<lambda>c. hash_key (conv_id c)) (conversations s)))
         \<and> length (by_id s) \<le> length (conversations s)
         \<and> (length (by_id s) = length (conversations s)
              \<longleftrightarrow> distinct (map (\<lambda>c. hash_key (conv_id c)) (conversations s)))
         \<and> (\<forall>r. get_stats s = Inr r \<longrightarrow> totalConversations r = length (conversations s))"
proof -
  let ?cs = "conversations s"
  let ?hk = "\<lambda>c. hash_key (conv_id c)"
  from load_data_ok[OF assms] have d: "distinct (map fst (by_id s))"
    and m: "\<And>k. map_of (by_id s) k =
               (if with_key k ?cs = [] then None else Some (last (with_key k ?cs)))"
    and la: "list_all (\<lambda>c. (\<exists>dt. fromtimestamp (create_time c) = Inr dt) \<and> (\<exists>k. hash_key (conv_id c) = Inr k)) ?cs"
    by (simp_all add: store_ok_def)
  have keys: "fst ` set (by_id s) = {k. with_key k ?cs \<noteq> []}"
  proof -
    have "\<And>k. (k \<in> fst ` set (by_id s)) = (with_key k ?cs \<noteq> [])"
      using m by (simp flip: map_of_keys)
    then show ?thesis by blast
  qed
  have img: "Inr ` fst ` set (by_id s) = set (map ?hk ?cs)"
  proof (intro set_eqI iffI)
    fix x :: "py_error + pykey"
    assume "x \<in> Inr ` fst ` set (by_id s)"
    then obtain k where "x = Inr k" "with_key k ?cs \<noteq> []" using keys by auto
    then obtain c where "c \<in> set (with_key k ?cs)" by (cases "with_key k ?cs") auto
    then have "c \<in> set ?cs" "hash_key (conv_id c) = Inr k" by (simp_all add: with_key_def)
    then have "Inr k \<in> ?hk ` set ?cs" by (metis image_eqI)
    with \<open>x = Inr k\<close> show "x \<in> set (map ?hk ?cs)" by simp
  next
    fix x :: "py_error + pykey"
    assume "x \<in> set (map ?hk ?cs)"
    then obtain c where c: "c \<in> set ?cs" "x = ?hk c" by auto
    with la obtain k where k: "hash_key (conv_id c) = Inr k" by (auto simp: list_all_iff)
    with c have "c \<in> set (with_key k ?cs)" by (simp add: with_key_def)
    then have "with_key k ?cs \<noteq> []" by auto
    with keys c k show "x \<in> Inr ` fst ` set (by_id s)" by auto
  qed
  have len: "length (by_id s) = card (set (map ?hk ?cs))"
  proof -
    have "length (by_id s) = card (set (map fst (by_id s)))"
      using distinct_card[OF d] by simp
    also have "\<dots> = card (Inr ` fst ` set (by_id s) :: (py_error + pykey) set)"
      by (simp add: card_image)
    finally show ?thesis using img by simp
  qed
  have le: "length (by_id s) \<le> length ?cs"
    unfolding len using card_length[of "map ?hk ?cs"] by simp
  have eq: "length (by_id s) = length ?cs \<longleftrightarrow> distinct (map ?hk ?cs)"
    unfolding len using card_distinct[of "map ?hk ?cs"] distinct_card[of "map ?hk ?cs"] by auto
  from d m len le eq get_stats_total show ?thesis by blast
qed

theorem by_id_one_entry_per_distinct_id_witness:
  "load_data (JList [ex_record]) = Inr ex_service
   \<and> length (by_id ex_service) = length (conversations ex_service)
   \<and> distinct (map (\<lambda>c. hash_key (conv_id c)) (conversations ex_service))"
proof -
  from by_id_one_entry_per_distinct_id[OF ex_load]
  have "length (by_id ex_service) = length (conversations ex_service)
          \<longleftrightarrow> distinct (map (\<lambda>c. hash_key (conv_id c)) (conversations ex_service))"
    by blast
  moreover have "length (by_id ex_service) = length (conversations ex_service)"
    by (simp add: ex_service_def)
  ultimately show ?thesis using ex_load by blast
qed

text \<open>
  The claim as stated fails: two records with the same id leave one entry in \<^verbatim>\<open>by_id\<close>,
  while \<^verbatim>\<open>get_stats\<close> reports two conversations.
\<close>

theorem by_id_duplicate_id_counterexample:
  "(case load_data (JList [JDict [(''id'', JStr ''c1''), (''create_time'', JNum 1)],
                           JDict [(''id'', JStr ''c1''), (''create_time'', JNum 2)]]) of
      Inl e \<Rightarrow> False
    | Inr s \<Rightarrow> length (by_id s) = 1
              \<and> (case get_stats s of Inl e \<Rightarrow> False | Inr r \<Rightarrow> totalConversations r = 2))"
  by code_simp



section \<open>Properties of the statistics\<close>

lemma first_occurrences_snoc:
  "first_occurrences (xs @ [x]) = (if x \<in> set xs then first_occurrences xs else first_occurrences xs @ [x])"
  by (simp add: first_occurrences_def)

lemma set_first_occurrences: "set (first_occurrences xs) = set xs"
  by (simp add: first_occurrences_def)

lemma distinct_first_occurrences: "distinct (first_occurrences xs)"
  by (simp add: first_occurrences_def)

lemma dict_set_map:
  "distinct ks \<Longrightarrow>
     dict_set x v (map (\<lambda>k. (k, f k)) ks) =
       (if x \<in> set ks then map (\<lambda>k. (k, if k = x then v else f k)) ks
        else map (\<lambda>k. (k, f k)) ks @ [(x, v)])"
  by (induction ks) auto

lemma map_of_model_frequencies:
  "map_of (model_frequencies ks) k = (if k \<in> set ks then Some (count_list ks k) else None)"
proof -
  have "map_of (map (\<lambda>k. (k, count_list ks k)) (first_occurrences ks)) k =
          (if k \<in> set (first_occurrences ks) then Some (count_list ks k) else None)"
    by (induction "first_occurrences ks") (auto simp: map_of_map_restrict restrict_map_def)
  then show ?thesis by (simp add: model_frequencies_def set_first_occurrences)
qed

lemma incr_count_model_frequencies:
  "incr_count x (model_frequencies pre) = model_frequencies (pre @ [x])"
proof (cases "x \<in> set pre")
  case True
  then show ?thesis
    by (simp add: incr_count_def map_of_model_frequencies)
       (simp add: model_frequencies_def first_occurrences_snoc dict_set_map
          distinct_first_occurrences set_first_occurrences)
next
  case False
  then show ?thesis
    by (simp add: incr_count_def map_of_model_frequencies)
       (auto simp: model_frequencies_def first_occurrences_snoc dict_set_map
          distinct_first_occurrences set_first_occurrences)
qed

lemma fold_incr_count:
  "fold incr_count ks (model_frequencies pre) = model_frequencies (pre @ ks)"
proof (induction ks arbitrary: pre)
  case Nil
  show ?case by simp
next
  case (Cons k ks)
  have "fold incr_count (k # ks) (model_frequencies pre) = fold incr_count ks (model_frequencies (pre @ [k]))"
    by (simp add: incr_count_model_frequencies)
  also have "\<dots> = model_frequencies ((pre @ [k]) @ ks)" by (rule Cons.IH)
  finally show ?case by simp
qed

lemma count_stats_models:
  "count_stats cs mc tm = Inr (mc', tm') \<Longrightarrow> mc' = fold incr_count (model_keys cs) mc"
proof (induction cs arbitrary: mc tm)
  case Nil
  then show ?case by (simp add: model_keys_def)
next
  case (Cons c cs)
  show ?case
  proof (cases "truthy (model c)")
    case False
    with Cons.prems obtain n where "count_stats cs mc (tm + n) = Inr (mc', tm')"
      by (auto split: sum.splits)
    from Cons.IH[OF this] False show ?thesis by (simp add: model_keys_def)
  next
    case True
    with Cons.prems obtain k where k: "hash_key (model c) = Inr k"
      by (auto split: sum.splits)
    with True Cons.prems obtain n where "count_stats cs (incr_count k mc) (tm + n) = Inr (mc', tm')"
      by (auto split: sum.splits)
    from Cons.IH[OF this] True k show ?thesis by (simp add: model_keys_def)
  qed
qed

lemma model_frequencies_Nil: "model_frequencies [] = []"
  by (simp add: model_frequencies_def first_occurrences_def)

lemma get_stats_topModels:
  assumes "get_stats s = Inr r"
  shows "topModels r =
           take 10 (sort_key (\<lambda>x. - int (snd x)) (model_frequencies (model_keys (conversations s))))"
proof (cases "conversations s = []")
  case True
  with assms show ?thesis by (auto simp: get_stats_def model_keys_def model_frequencies_Nil)
next
  case False
  with assms obtain mc tm where ct: "count_stats (conversations s) [] 0 = Inr (mc, tm)"
    and top: "topModels r = take 10 (sort_key (\<lambda>x. - int (snd x)) mc)"
    by (auto simp: get_stats_def Let_def split: sum.splits prod.splits)
  from count_stats_models[OF ct] fold_incr_count[of "model_keys (conversations s)" "[]"]
  have "mc = model_frequencies (model_keys (conversations s))"
    by (simp add: model_frequencies_Nil)
  with top show ?thesis by simp
qed

lemma model_keys_nonempty:
  "k \<in> set (model_keys cs) \<Longrightarrow> k \<noteq> KNone \<and> k \<noteq> KStr [] \<and> k \<noteq> KNum 0"
proof -
  assume "k \<in> set (model_keys cs)"
  then obtain c :: conversation where "truthy (model c)" "hash_key (model c) = Inr k"
    by (auto simp: model_keys_def split: if_splits sum.splits)
  then show ?thesis by (cases "model c") (auto split: if_splits)
qed

lemma sorted_take_drop:
  assumes "sorted (map f xs)" "a \<in> set (take n xs)" "b \<in> set (drop n xs)"
  shows "f a \<le> f b"
proof -
  have "sorted (map f (take n xs) @ map f (drop n xs))"
    using assms(1) by (simp flip: map_append)
  then show ?thesis using assms(2,3) by (auto simp: sorted_append)
qed

lemma utc_day_ex: "utc_day 1700000000 = Inr ''2023-11-14''"
  by code_simp

lemma fromtimestamp_ex: "\<exists>dt. fromtimestamp 1700000000 = Inr dt \<and> strftime_ymd dt = ''2023-11-14''"
  using utc_day_ex by (auto simp: utc_day_def split: sum.splits)

lemma ex_model_stats:
  "get_stats ex_model_service =
     Inr \<lparr>totalConversations = 4, totalMessages = 0, dateRange_start = ''2023-11-14'',
          dateRange_end = ''2023-11-14'',
          topModels = [(KStr ''gpt-4'', 2), (KStr ''o1'', 1), (KStr ''gpt-3.5'', 1)]\<rparr>"
proof -
  from fromtimestamp_ex obtain dt where dt: "fromtimestamp 1700000000 = Inr dt" "strftime_ymd dt = ''2023-11-14''"
    by blast
  show ?thesis
    by (simp add: get_stats_def ex_model_service_def ex_model_conv_def incr_count_def
          message_count_def dt)
qed

text \<open>
  C7. Whenever \<^verbatim>\<open>get_stats\<close> returns, \<^verbatim>\<open>topModels\<close> is the first ten entries of the stable
  sort, by descending count, of the distinct non-empty model values with their numbers of
  conversations, taken in the order of first occurrence in the corpus. So it has at most ten
  entries, each a non-empty model with its frequency; frequencies descend; entries of equal
  frequency stand in the order of their first occurrence; and no model left out is more
  frequent than a model listed.
\<close>

theorem top_models_most_frequent:
  assumes "get_stats s = Inr r"
  shows "topModels r =
           take 10 (sort_key (\<lambda>x. - int (snd x)) (model_frequencies (model_keys (conversations s))))
         \<and> length (topModels r) \<le> 10
         \<and> distinct (map fst (topModels r))
         \<and> (\<forall>x\<in>set (topModels r).
               fst x \<in> set (model_keys (conversations s))
               \<and> snd x = count_list (model_keys (conversations s)) (fst x) \<and> 0 < snd x
               \<and> fst x \<noteq> KNone \<and> fst x \<noteq> KStr [] \<and> fst x \<noteq> KNum 0)
         \<and> sorted_wrt (\<lambda>a b. snd b \<le> snd a) (topModels r)
         \<and> (\<forall>n. prefix (filter (\<lambda>x. snd x = n) (topModels r))
                    (filter (\<lambda>x. snd x = n) (model_frequencies (model_keys (conversations s)))))
         \<and> (\<forall>y\<in>set (model_frequencies (model_keys (conversations s))).
               y \<notin> set (topModels r) \<longrightarrow> (\<forall>x\<in>set (topModels r). snd y \<le> snd x))"
proof -
  let ?ks = "model_keys (conversations s)"
  let ?freq = "model_frequencies ?ks"
  let ?f = "\<lambda>x :: pykey \<times> nat. - int (snd x)"
  let ?srt = "sort_key ?f ?freq"
  have top: "topModels r = take 10 ?srt" by (rule get_stats_topModels[OF assms])
  have len: "length (topModels r) \<le> 10" unfolding top by simp
  have dfreq: "distinct (map fst ?freq)"
    by (simp add: model_frequencies_def comp_def distinct_first_occurrences)
  have "distinct (map fst ?srt)"
    using dfreq by (simp add: distinct_map)
  then have dist: "distinct (map fst (topModels r))"
    unfolding top by (simp add: take_map[symmetric])
  have sub: "set (topModels r) \<subseteq> set ?freq"
    unfolding top using set_take_subset[of 10 ?srt] by simp
  have ent: "\<forall>x\<in>set (topModels r).
               fst x \<in> set ?ks \<and> snd x = count_list ?ks (fst x) \<and> 0 < snd x
               \<and> fst x \<noteq> KNone \<and> fst x \<noteq> KStr [] \<and> fst x \<noteq> KNum 0"
  proof
    fix x assume "x \<in> set (topModels r)"
    with sub have "x \<in> set ?freq" by blast
    then have k: "fst x \<in> set ?ks" and n: "snd x = count_list ?ks (fst x)"
      by (auto simp: model_frequencies_def set_first_occurrences)
    from k have "count_list ?ks (fst x) \<noteq> 0" by (simp add: count_list_0_iff)
    with n have "0 < snd x" by simp
    with k n model_keys_nonempty[OF k]
    show "fst x \<in> set ?ks \<and> snd x = count_list ?ks (fst x) \<and> 0 < snd x
               \<and> fst x \<noteq> KNone \<and> fst x \<noteq> KStr [] \<and> fst x \<noteq> KNum 0" by blast
  qed
  have "sorted (take 10 (map ?f ?srt))"
    by (rule sorted_wrt_take) simp
  then have "sorted (map ?f (take 10 ?srt))"
    by (simp add: take_map)
  then have desc: "sorted_wrt (\<lambda>a b. snd b \<le> snd a) (topModels r)"
    unfolding top by (simp add: sorted_map)
  have ties: "\<forall>n. prefix (filter (\<lambda>x. snd x = n) (topModels r)) (filter (\<lambda>x. snd x = n) ?freq)"
  proof
    fix n
    have "filter (\<lambda>x. ?f x = - int n) ?srt = filter (\<lambda>x. ?f x = - int n) ?freq"
      by (rule sort_key_stable)
    then have "filter (\<lambda>x. snd x = n) ?srt = filter (\<lambda>x. snd x = n) ?freq" by simp
    moreover have "prefix (filter (\<lambda>x. snd x = n) (take 10 ?srt)) (filter (\<lambda>x. snd x = n) ?srt)"
      by (rule filter_mono_prefix) (rule take_is_prefix)
    ultimately show "prefix (filter (\<lambda>x. snd x = n) (topModels r)) (filter (\<lambda>x. snd x = n) ?freq)"
      unfolding top by simp
  qed
  have most: "\<forall>y\<in>set ?freq. y \<notin> set (topModels r) \<longrightarrow> (\<forall>x\<in>set (topModels r). snd y \<le> snd x)"
  proof (intro ballI impI)
    fix y x
    assume y: "y \<in> set ?freq" "y \<notin> set (topModels r)" and x: "x \<in> set (topModels r)"
    have "set ?srt = set (take 10 ?srt) \<union> set (drop 10 ?srt)"
      by (metis append_take_drop_id set_append)
    moreover from y(1) have "y \<in> set ?srt" by simp
    ultimately have "y \<in> set (drop 10 ?srt)" using y(2) unfolding top by blast
    moreover have "sorted (map ?f ?srt)" by simp
    ultimately have "?f x \<le> ?f y" using x unfolding top by (intro sorted_take_drop[of ?f ?srt x 10 y])
    then show "snd y \<le> snd x" by simp
  qed
  from top len dist ent desc ties most show ?thesis by blast
qed

theorem top_models_most_frequent_witness:
  "get_stats ex_model_service =
     Inr \<lparr>totalConversations = 4, totalMessages = 0, dateRange_start = ''2023-11-14'',
          dateRange_end = ''2023-11-14'',
          topModels = [(KStr ''gpt-4'', 2), (KStr ''o1'', 1), (KStr ''gpt-3.5'', 1)]\<rparr>
   \<and> prefix (filter (\<lambda>x. snd x = 1) [(KStr ''gpt-4'', 2 :: nat), (KStr ''o1'', 1), (KStr ''gpt-3.5'', 1)])
        (filter (\<lambda>x. snd x = 1) (model_frequencies (model_keys (conversations ex_model_service))))"
proof -
  let ?r = "\<lparr>totalConversations = 4, totalMessages = 0, dateRange_start = ''2023-11-14'',
          dateRange_end = ''2023-11-14'',
          topModels = [(KStr ''gpt-4'', 2), (KStr ''o1'', 1), (KStr ''gpt-3.5'', 1)]\<rparr>"
  from top_models_most_frequent[OF ex_model_stats]
  have "\<forall>n. prefix (filter (\<lambda>x. snd x = n) (topModels ?r))
                    (filter (\<lambda>x. snd x = n) (model_frequencies (model_keys (conversations ex_model_service))))"
    by blast
  then have "prefix (filter (\<lambda>x. snd x = 1) (topModels ?r))
                    (filter (\<lambda>x. snd x = 1) (model_frequencies (model_keys (conversations ex_model_service))))"
    by blast
  then have "prefix (filter (\<lambda>x. snd x = 1) [(KStr ''gpt-4'', 2 :: nat), (KStr ''o1'', 1), (KStr ''gpt-3.5'', 1)])
        (filter (\<lambda>x. snd x = 1) (model_frequencies (model_keys (conversations ex_model_service))))"
    by simp
  with ex_model_stats show ?thesis by blast
qed

section \<open>Properties of the calendar and of the date keys\<close>

lemma digit_char_0: "digit_char 0 = CHR ''0''"
  by code_simp

lemma of_char_digit_char: "of_char (digit_char n) = (48 + n mod 10 :: nat)"
proof -
  have "48 + n mod 10 < (256 :: nat)" by (rule less_trans[of _ 58]) simp_all
  then show ?thesis by (simp add: digit_char_def)
qed

lemma digit_val_digit_char: "digit_val (digit_char n) = Some (n mod 10)"
  by (simp add: digit_val_def of_char_digit_char)

lemma digit_char_eq_iff: "digit_char m = digit_char n \<longleftrightarrow> m mod 10 = n mod 10"
proof
  assume "digit_char m = digit_char n"
  then have "digit_val (digit_char m) = digit_val (digit_char n)" by simp
  then show "m mod 10 = n mod 10" by (simp add: digit_val_digit_char)
next
  assume "m mod 10 = n mod 10"
  then show "digit_char m = digit_char n" by (simp add: digit_char_def)
qed

lemma digit_char_less_iff: "digit_char m < digit_char n \<longleftrightarrow> m mod 10 < n mod 10"
  by (simp add: less_char_def of_char_digit_char)

lemma digit_val_dash: "digit_val (CHR ''-'') = None"
  by (simp add: digit_val_def)

lemma digit_char_not_dash: "digit_char n \<noteq> CHR ''-''"
proof
  assume "digit_char n = CHR ''-''"
  then have "digit_val (digit_char n) = digit_val (CHR ''-'')" by simp
  then show False by (simp add: digit_val_digit_char digit_val_dash)
qed

lemma nat_digits_lt10: "n < 10 \<Longrightarrow> nat_digits n = [digit_char n]"
  by (simp add: nat_digits.simps)

lemma nat_digits_ge10: "10 \<le> n \<Longrightarrow> nat_digits n = nat_digits (n div 10) @ [digit_char n]"
  by (subst nat_digits.simps) (simp add: digit_char_def)

lemma nat_digits_2: "10 \<le> n \<Longrightarrow> n < 100 \<Longrightarrow> nat_digits n = [digit_char (n div 10), digit_char n]"
  by (simp add: nat_digits_ge10 nat_digits_lt10)

lemma nat_digits_3:
  assumes "100 \<le> n" "n < 1000"
  shows "nat_digits n = [digit_char (n div 100), digit_char (n div 10), digit_char n]"
proof -
  have "10 \<le> n div 10" "n div 10 < 100" using assms by simp_all
  then have "nat_digits (n div 10) = [digit_char (n div 10 div 10), digit_char (n div 10)]"
    by (rule nat_digits_2)
  moreover have "n div 10 div 10 = n div 100" by (simp add: div_mult2_eq[symmetric])
  ultimately show ?thesis using assms by (simp add: nat_digits_ge10)
qed

lemma nat_digits_4:
  assumes "1000 \<le> n" "n < 10000"
  shows "nat_digits n = [digit_char (n div 1000), digit_char (n div 100), digit_char (n div 10), digit_char n]"
proof -
  have "100 \<le> n div 10" "n div 10 < 1000" using assms by simp_all
  then have "nat_digits (n div 10) =
      [digit_char (n div 10 div 100), digit_char (n div 10 div 10), digit_char (n div 10)]"
    by (rule nat_digits_3)
  moreover have "n div 10 div 10 = n div 100" "n div 10 div 100 = n div 1000"
    by (simp_all add: div_mult2_eq[symmetric])
  ultimately show ?thesis using assms by (simp add: nat_digits_ge10)
qed

lemma length_nat_digits_ge5: "10000 \<le> n \<Longrightarrow> 5 \<le> length (nat_digits n)"
proof -
  assume n: "10000 \<le> n"
  have "length (nat_digits n) = Suc (length (nat_digits (n div 10)))"
    using n by (simp add: nat_digits_ge10)
  also have "\<dots> = Suc (Suc (length (nat_digits (n div 10 div 10))))"
    using n by (simp add: nat_digits_ge10)
  also have "\<dots> = Suc (Suc (Suc (length (nat_digits (n div 10 div 10 div 10)))))"
    using n by (simp add: nat_digits_ge10)
  also have "\<dots> = Suc (Suc (Suc (Suc (length (nat_digits (n div 10 div 10 div 10 div 10))))))"
    using n by (simp add: nat_digits_ge10)
  also have "\<dots> \<ge> 5"
    by (subst nat_digits.simps) simp
  finally show ?thesis .
qed

lemma replicate_small:
  "replicate 1 c = [c]" "replicate 2 c = [c, c]" "replicate 3 c = [c, c, c]"
  by (simp_all add: numeral_2_eq_2 numeral_3_eq_3)

lemma digit_char_div_0: "n < k \<Longrightarrow> CHR ''0'' = digit_char (n div k)"
  by (simp add: digit_char_0)

lemma zero_pad_2: "n < 100 \<Longrightarrow> zero_pad 2 n = [digit_char (n div 10), digit_char n]"
proof (cases "n < 10")
  case True
  then show ?thesis by (simp add: zero_pad_def nat_digits_lt10 digit_char_0)
next
  case False
  assume "n < 100"
  with False show ?thesis by (simp add: zero_pad_def nat_digits_2)
qed

lemma zero_pad_4:
  assumes "n < 10000"
  shows "zero_pad 4 n = [digit_char (n div 1000), digit_char (n div 100), digit_char (n div 10), digit_char n]"
proof -
  consider "n < 10" | "10 \<le> n" "n < 100" | "100 \<le> n" "n < 1000" | "1000 \<le> n" "n < 10000"
    using assms by linarith
  then show ?thesis
  proof cases
    case 1
    then have "zero_pad 4 n = [CHR ''0'', CHR ''0'', CHR ''0'', digit_char n]"
      by (simp add: zero_pad_def nat_digits_lt10 replicate_small)
    with 1 show ?thesis using digit_char_div_0[of n 1000] digit_char_div_0[of n 100] digit_char_div_0[of n 10] by simp
  next
    case 2
    then have "zero_pad 4 n = [CHR ''0'', CHR ''0'', digit_char (n div 10), digit_char n]"
      by (simp add: zero_pad_def nat_digits_2 replicate_small)
    with 2 show ?thesis using digit_char_div_0[of n 1000] digit_char_div_0[of n 100] digit_char_div_0[of n 10] by simp
  next
    case 3
    then have "zero_pad 4 n = [CHR ''0'', digit_char (n div 100), digit_char (n div 10), digit_char n]"
      by (simp add: zero_pad_def nat_digits_3 replicate_small)
    with 3 show ?thesis using digit_char_div_0[of n 1000] digit_char_div_0[of n 100] digit_char_div_0[of n 10] by simp
  next
    case 4
    then show ?thesis by (simp add: zero_pad_def nat_digits_4)
  qed
qed

lemma parse_2: "parse_digits 0 [digit_char a, digit_char b] = Some (10 * (a mod 10) + b mod 10)"
  by (simp add: digit_val_digit_char)

lemma parse_4:
  "parse_digits 0 [digit_char a, digit_char b, digit_char c, digit_char d] =
     Some (1000 * (a mod 10) + 100 * (b mod 10) + 10 * (c mod 10) + d mod 10)"
  by (simp add: digit_val_digit_char)

lemma parse_zero_pad_2:
  assumes "n < 100"
  shows "parse_digits 0 (zero_pad 2 n) = Some n"
proof -
  have "n div 10 < 10" using assms by simp
  then have "n div 10 mod 10 = n div 10" by simp
  then have "10 * (n div 10 mod 10) + n mod 10 = n" by simp
  then show ?thesis using assms by (simp only: zero_pad_2 parse_2)
qed

lemma parse_zero_pad_4:
  assumes "n < 10000"
  shows "parse_digits 0 (zero_pad 4 n) = Some n"
proof -
  define a where "a = n div 10"
  define b where "b = a div 10"
  define c where "c = b div 10"
  have b': "b = n div 100" and c': "c = n div 1000"
    by (simp_all add: a_def b_def c_def div_mult2_eq[symmetric])
  have "c < 10" using assms unfolding c' by simp
  then have c10: "c mod 10 = c" by simp
  have e1: "n = 10 * a + n mod 10" unfolding a_def by simp
  have e2: "a = 10 * b + a mod 10" unfolding b_def by simp
  have e3: "b = 10 * c + b mod 10" unfolding c_def by simp
  have "1000 * (c mod 10) + 100 * (b mod 10) + 10 * (a mod 10) + n mod 10 = n"
    using e1 e2 e3 c10 by linarith
  then have "1000 * (n div 1000 mod 10) + 100 * (n div 100 mod 10) + 10 * (n div 10 mod 10) + n mod 10 = n"
    unfolding a_def[symmetric] b'[symmetric] c'[symmetric] .
  then show ?thesis using assms by (simp only: zero_pad_4 parse_4)
qed

lemma days_before_month_values:
  "days_before_month 1 = 0" "days_before_month 2 = 31" "days_before_month 3 = 59"
  "days_before_month 4 = 90" "days_before_month 5 = 120" "days_before_month 6 = 151"
  "days_before_month 7 = 181" "days_before_month 8 = 212" "days_before_month 9 = 243"
  "days_before_month 10 = 273" "days_before_month 11 = 304" "days_before_month 12 = 334"
  by code_simp+

lemma mdays_values:
  "mdays 1 = 31" "mdays 2 = 28" "mdays 3 = 31" "mdays 4 = 30" "mdays 5 = 31" "mdays 6 = 30"
  "mdays 7 = 31" "mdays 8 = 31" "mdays 9 = 30" "mdays 10 = 31" "mdays 11 = 30" "mdays 12 = 31"
  by (simp_all add: mdays_def)

lemma calendar_Suc_0: "days_before_month (Suc 0) = 0" "mdays (Suc 0) = 31"
  by (simp_all add: days_before_month_def mdays_def)

text \<open>The month and day of the day \<open>k\<close> of a year, as the tail of \<open>ord2ymd\<close> computes them.\<close>

lemma month_day_valid:
  fixes k :: nat and leap :: bool
  assumes k: "k < 365"
  defines "month \<equiv> (k + 50) div 32"
  defines "preceding \<equiv> days_before_month month + (if month > 2 \<and> leap then 1 else 0)"
  defines "month' \<equiv> month - 1"
  defines "preceding' \<equiv> preceding - (mdays month' + (if month' = 2 \<and> leap then 1 else 0))"
  shows "(preceding > k \<longrightarrow>
            1 \<le> month' \<and> month' \<le> 12 \<and> 1 \<le> k - preceding' + 1
            \<and> k - preceding' + 1 \<le> mdays month' + (if month' = 2 \<and> leap then 1 else 0))
         \<and> (\<not> preceding > k \<longrightarrow>
            1 \<le> month \<and> month \<le> 12 \<and> 1 \<le> k - preceding + 1
            \<and> k - preceding + 1 \<le> mdays month + (if month = 2 \<and> leap then 1 else 0))"
proof -
  have "1 \<le> month" "month \<le> 12" using k unfolding month_def by simp_all
  then consider "month = 1" | "month = 2" | "month = 3" | "month = 4" | "month = 5" | "month = 6"
    | "month = 7" | "month = 8" | "month = 9" | "month = 10" | "month = 11" | "month = 12"
    by atomize_elim presburger
  then show ?thesis
  proof cases
    case 1
    then have "k < 14" unfolding month_def by simp
    with 1 show ?thesis
      unfolding preceding_def preceding'_def month'_def
      by (simp add: calendar_Suc_0)
  next
    case 2
    then have "14 \<le> k" "k < 46" unfolding month_def by simp_all
    with 2 show ?thesis
      unfolding preceding_def preceding'_def month'_def
      by (auto simp: days_before_month_values mdays_values calendar_Suc_0)
  next
    case 3
    then have "46 \<le> k" "k < 78" unfolding month_def by simp_all
    with 3 show ?thesis
      unfolding preceding_def preceding'_def month'_def
      by (auto simp: days_before_month_values mdays_values calendar_Suc_0)
  next
    case 4
    then have "78 \<le> k" "k < 110" unfolding month_def by simp_all
    with 4 show ?thesis
      unfolding preceding_def preceding'_def month'_def
      by (auto simp: days_before_month_values mdays_values calendar_Suc_0)
  next
    case 5
    then have "110 \<le> k" "k < 142" unfolding month_def by simp_all
    with 5 show ?thesis
      unfolding preceding_def preceding'_def month'_def
      by (auto simp: days_before_month_values mdays_values calendar_Suc_0)
  next
    case 6
    then have "142 \<le> k" "k < 174" unfolding month_def by simp_all
    with 6 show ?thesis
      unfolding preceding_def preceding'_def month'_def
      by (auto simp: days_before_month_values mdays_values calendar_Suc_0)
  next
    case 7
    then have "174 \<le> k" "k < 206" unfolding month_def by simp_all
    with 7 show ?thesis
      unfolding preceding_def preceding'_def month'_def
      by (auto simp: days_before_month_values mdays_values calendar_Suc_0)
  next
    case 8
    then have "206 \<le> k" "k < 238" unfolding month_def by simp_all
    with 8 show ?thesis
      unfolding preceding_def preceding'_def month'_def
      by (auto simp: days_before_month_values mdays_values calendar_Suc_0)
  next
    case 9
    then have "238 \<le> k" "k < 270" unfolding month_def by simp_all
    with 9 show ?thesis
      unfolding preceding_def preceding'_def month'_def
      by (auto simp: days_before_month_values mdays_values calendar_Suc_0)
  next
    case 10
    then have "270 \<le> k" "k < 302" unfolding month_def by simp_all
    with 10 show ?thesis
      unfolding preceding_def preceding'_def month'_def
      by (auto simp: days_before_month_values mdays_values calendar_Suc_0)
  next
    case 11
    then have "302 \<le> k" "k < 334" unfolding month_def by simp_all
    with 11 show ?thesis
      unfolding preceding_def preceding'_def month'_def
      by (auto simp: days_before_month_values mdays_values calendar_Suc_0)
  next
    case 12
    then have "334 \<le> k" unfolding month_def by simp
    with 12 k show ?thesis
      unfolding preceding_def preceding'_def month'_def
      by (auto simp: days_before_month_values mdays_values calendar_Suc_0)
  qed
qed


lemma isleap_formula:
  fixes n400 n100 n4 n1 :: int
  assumes "0 \<le> n100" "n100 \<le> 3" "0 \<le> n4" "n4 \<le> 24" "0 \<le> n1" "n1 \<le> 3"
  shows "isleap (n400 * 400 + 1 + n100 * 100 + n4 * 4 + n1) = (n1 = 3 \<and> (n4 \<noteq> 24 \<or> n100 = 3))"
proof -
  let ?y = "n400 * 400 + 1 + n100 * 100 + n4 * 4 + n1"
  have y4: "?y = 4 * (n400 * 100 + n100 * 25 + n4) + (1 + n1)" by simp
  have y100: "?y = 100 * (n400 * 4 + n100) + (n4 * 4 + n1 + 1)" by simp
  have y400: "?y = 400 * n400 + (n100 * 100 + n4 * 4 + n1 + 1)" by simp
  have m4: "?y mod 4 = (1 + n1) mod 4" unfolding y4 by (rule mod_mult_self4)
  have m100: "?y mod 100 = (n4 * 4 + n1 + 1) mod 100" unfolding y100 by (rule mod_mult_self4)
  have m400: "?y mod 400 = (n100 * 100 + n4 * 4 + n1 + 1) mod 400" unfolding y400 by (rule mod_mult_self4)
  have a: "(1 + n1) mod 4 = 0 \<longleftrightarrow> n1 = 3" using assms by presburger
  have b: "(n4 * 4 + n1 + 1) mod 100 = 0 \<longleftrightarrow> n4 = 24 \<and> n1 = 3"
  proof -
    define x where "x = n4 * 4 + n1 + 1"
    have x: "0 < x" "x \<le> 100" unfolding x_def using assms by linarith+
    have "x mod 100 = 0 \<longleftrightarrow> x = 100"
    proof (cases "x = 100")
      case True
      then show ?thesis by simp
    next
      case False
      with x have "x mod 100 = x" by simp
      with x False show ?thesis by simp
    qed
    moreover have "x = 100 \<longleftrightarrow> n4 = 24 \<and> n1 = 3"
      unfolding x_def using assms by linarith
    ultimately show ?thesis unfolding x_def by simp
  qed
  have c: "(n100 * 100 + n4 * 4 + n1 + 1) mod 400 = 0 \<longleftrightarrow> n100 = 3 \<and> n4 = 24 \<and> n1 = 3"
  proof -
    define x where "x = n100 * 100 + n4 * 4 + n1 + 1"
    have x: "0 < x" "x \<le> 400" unfolding x_def using assms by linarith+
    have "x mod 400 = 0 \<longleftrightarrow> x = 400"
    proof (cases "x = 400")
      case True
      then show ?thesis by simp
    next
      case False
      with x have "x mod 400 = x" by simp
      with x False show ?thesis by simp
    qed
    moreover have "x = 400 \<longleftrightarrow> n100 = 3 \<and> n4 = 24 \<and> n1 = 3"
      unfolding x_def using assms by linarith
    ultimately show ?thesis unfolding x_def by simp
  qed
  show ?thesis unfolding isleap_def m4 m100 m400 a b c by blast
qed

lemma div_bounds:
  fixes x :: int
  assumes "0 \<le> x" "x \<le> u" "0 < d"
  shows "0 \<le> x div d" "x div d \<le> u div d"
  using assms by (simp_all add: pos_imp_zdiv_nonneg_iff zdiv_mono1)

lemma mod_bounds:
  fixes x :: int
  assumes "0 < d"
  shows "0 \<le> x mod d" "x mod d \<le> d - 1"
  using assms by simp_all

lemma ord2ymd_unfold:
  fixes n0 :: int
  defines "n \<equiv> n0 - 1"
  defines "n400 \<equiv> n div 146097"
  defines "r1 \<equiv> n mod 146097"
  defines "n100 \<equiv> r1 div 36524"
  defines "r2 \<equiv> r1 mod 36524"
  defines "n4 \<equiv> r2 div 1461"
  defines "r3 \<equiv> r2 mod 1461"
  defines "n1 \<equiv> r3 div 365"
  defines "r4 \<equiv> r3 mod 365"
  defines "yy \<equiv> n400 * 400 + 1 + n100 * 100 + n4 * 4 + n1"
  defines "leap \<equiv> (n1 = 3 \<and> (n4 \<noteq> 24 \<or> n100 = 3))"
  defines "k \<equiv> nat r4"
  defines "month \<equiv> (k + 50) div 32"
  defines "preceding \<equiv> days_before_month month + (if month > 2 \<and> leap then 1 else 0)"
  defines "month' \<equiv> month - 1"
  defines "preceding' \<equiv> preceding - (mdays month' + (if month' = 2 \<and> leap then 1 else 0))"
  shows "ord2ymd n0 =
      (if n1 = 4 \<or> n100 = 4 then (yy - 1, 12, 31)
       else if preceding > k then (yy, month', k - preceding' + 1)
       else (yy, month, k - preceding + 1))"
    and "0 \<le> n100 \<and> n100 \<le> 4 \<and> 0 \<le> n4 \<and> n4 \<le> 24 \<and> 0 \<le> n1 \<and> n1 \<le> 4 \<and> k < 365"
    and "(1 \<le> m \<and> m \<le> 12 \<and> 1 \<le> d \<and> d \<le> days_in_month y m) \<or> ord2ymd n0 \<noteq> (y, m, d)"
    and "(1 \<le> n0 \<and> n0 \<le> 3652059 \<longrightarrow> 1 \<le> y \<and> y \<le> 9999) \<or> ord2ymd n0 \<noteq> (y, m, d)"
proof -
  show res: "ord2ymd n0 =
      (if n1 = 4 \<or> n100 = 4 then (yy - 1, 12, 31)
       else if preceding > k then (yy, month', k - preceding' + 1)
       else (yy, month, k - preceding + 1))"
    unfolding ord2ymd_def Let_def n_def n400_def r1_def n100_def r2_def n4_def r3_def n1_def r4_def
      yy_def leap_def k_def month_def preceding_def month'_def preceding'_def
    by simp
  have r1: "0 \<le> r1" "r1 \<le> 146096" unfolding r1_def by simp_all
  have b100: "0 \<le> n100" "n100 \<le> 4"
    unfolding n100_def using div_bounds[OF r1, of 36524] by simp_all
  have r2: "0 \<le> r2" "r2 \<le> 36523" unfolding r2_def by simp_all
  have b4: "0 \<le> n4" "n4 \<le> 24"
    unfolding n4_def using div_bounds[OF r2, of 1461] by simp_all
  have r3: "0 \<le> r3" "r3 \<le> 1460" unfolding r3_def by simp_all
  have b1: "0 \<le> n1" "n1 \<le> 4"
    unfolding n1_def using div_bounds[OF r3, of 365] by simp_all
  have r4: "0 \<le> r4" "r4 \<le> 364" unfolding r4_def by simp_all
  then have k: "k < 365" unfolding k_def by simp
  from b100 b4 b1 k
  show "0 \<le> n100 \<and> n100 \<le> 4 \<and> 0 \<le> n4 \<and> n4 \<le> 24 \<and> 0 \<le> n1 \<and> n1 \<le> 4 \<and> k < 365" by simp
  show "(1 \<le> m \<and> m \<le> 12 \<and> 1 \<le> d \<and> d \<le> days_in_month y m) \<or> ord2ymd n0 \<noteq> (y, m, d)"
  proof (cases "n1 = 4 \<or> n100 = 4")
    case True
    with res have "ord2ymd n0 = (yy - 1, 12, 31)" by simp
    then show ?thesis by (auto simp: days_in_month_def mdays_def)
  next
    case False
    with b100 b1 have "n100 \<le> 3" "n1 \<le> 3" by simp_all
    with b100 b4 b1 have lp: "isleap yy = leap"
      unfolding yy_def leap_def by (intro isleap_formula) simp_all
    note md = month_day_valid[OF k, of leap, folded month_def, folded preceding_def,
        folded month'_def, folded preceding'_def]
    show ?thesis
    proof (cases "preceding > k")
      case True
      with False res have "ord2ymd n0 = (yy, month', k - preceding' + 1)" by simp
      with md True lp show ?thesis by (auto simp: days_in_month_def)
    next
      case gt: False
      with False res have "ord2ymd n0 = (yy, month, k - preceding + 1)" by simp
      with md gt lp show ?thesis by (auto simp: days_in_month_def)
    qed
  qed
  have yr: "1 \<le> yy \<and> yy \<le> 9999 \<and> (n1 = 4 \<or> n100 = 4 \<longrightarrow> 2 \<le> yy)"
    if rng: "1 \<le> n0" "n0 \<le> 3652059"
  proof -
    have n: "0 \<le> n" "n \<le> 3652058" unfolding n_def using rng by simp_all
    have b400: "0 \<le> n400" "n400 \<le> 24"
      unfolding n400_def using div_bounds[OF n, of 146097] by simp_all
    have e1: "n = 146097 * n400 + r1" unfolding n400_def r1_def by simp
    have e2: "r1 = 36524 * n100 + r2" unfolding n100_def r2_def by simp
    have e3: "r2 = 1461 * n4 + r3" unfolding n4_def r3_def by simp
    have e4: "r3 = 365 * n1 + r4" unfolding n1_def r4_def by simp
    have lo: "1 \<le> yy" and lo2: "n1 = 4 \<or> n100 = 4 \<longrightarrow> 2 \<le> yy"
      unfolding yy_def using b400 b100 b4 b1 by auto
    have hi: "yy \<le> 9999"
    proof (cases "n400 = 24")
      case False
      with b400 have "n400 \<le> 23" by simp
      with b100 b4 b1 show ?thesis unfolding yy_def by linarith
    next
      case c400: True
      with e1 n have r1': "r1 \<le> 145730" by simp
      with e2 r2 have "36524 * n100 \<le> 145730" by linarith
      then have n100': "n100 \<le> 3" by linarith
      show ?thesis
      proof (cases "n100 = 3")
        case False
        with n100' have "n100 \<le> 2" by simp
        with c400 b4 b1 show ?thesis unfolding yy_def by linarith
      next
        case c100: True
        with e2 r1' have r2': "r2 \<le> 36158" by simp
        show ?thesis
        proof (cases "n4 = 24")
          case False
          with b4 have "n4 \<le> 23" by simp
          with c400 c100 b1 show ?thesis unfolding yy_def by linarith
        next
          case c4: True
          with e3 r2' have r3': "r3 \<le> 1094" by simp
          with e4 r4 have "365 * n1 \<le> 1094" by linarith
          then have "n1 \<le> 2" by linarith
          with c400 c100 c4 show ?thesis unfolding yy_def by linarith
        qed
      qed
    qed
    from lo lo2 hi show ?thesis by blast
  qed
  show "(1 \<le> n0 \<and> n0 \<le> 3652059 \<longrightarrow> 1 \<le> y \<and> y \<le> 9999) \<or> ord2ymd n0 \<noteq> (y, m, d)"
  proof (cases "ord2ymd n0 = (y, m, d)")
    case False
    then show ?thesis by simp
  next
    case True
    with res have "y = yy - 1 \<and> (n1 = 4 \<or> n100 = 4) \<or> y = yy"
      by (auto split: if_splits)
    with yr show ?thesis by auto
  qed
qed

lemma ord2ymd_year:
  "ord2ymd n0 = (y, m, d) \<Longrightarrow> 1 \<le> n0 \<Longrightarrow> n0 \<le> 3652059 \<Longrightarrow> 1 \<le> y \<and> y \<le> 9999"
  using ord2ymd_unfold(4)[of n0 y m d] by blast

lemma ord2ymd_valid:
  "ord2ymd n0 = (y, m, d) \<Longrightarrow> 1 \<le> m \<and> m \<le> 12 \<and> 1 \<le> d \<and> d \<le> days_in_month y m"
  using ord2ymd_unfold(3)[of m d y n0] by blast


lemma fromtimestamp_valid:
  assumes "fromtimestamp t = Inr dt"
  shows "1 \<le> dt_year dt \<and> dt_year dt \<le> 9999 \<and> 1 \<le> dt_month dt \<and> dt_month dt \<le> 12
         \<and> 1 \<le> dt_day dt \<and> dt_day dt \<le> days_in_month (dt_year dt) (dt_month dt)"
proof -
  define ordinal where "ordinal = round_half_even (t * 1000000) div 1000000 div 86400 + 719163"
  from assms have rng: "1 \<le> ordinal" "ordinal \<le> 3652059"
    and ymd: "ord2ymd ordinal = (dt_year dt, dt_month dt, dt_day dt)"
    unfolding fromtimestamp_def Let_def ordinal_def
    by (auto split: if_splits prod.splits)
  from ord2ymd_valid[OF ymd] ord2ymd_year[OF ymd rng] show ?thesis by simp
qed

lemma length_zero_pad_2: "n < 100 \<Longrightarrow> length (zero_pad 2 n) = 2"
  by (simp add: zero_pad_2)

lemma length_zero_pad_4: "n < 10000 \<Longrightarrow> length (zero_pad 4 n) = 4"
  by (simp add: zero_pad_4)

lemma fromisoformat_parts:
  assumes "length a = 4" "length b = 2" "length c = 2"
  shows "fromisoformat (a @ CHR ''-'' # b @ CHR ''-'' # c) =
     (case (parse_digits 0 a, parse_digits 0 b, parse_digits 0 c) of
        (Some y, Some m, Some d) \<Rightarrow>
          if 1 \<le> y \<and> 1 \<le> m \<and> m \<le> 12 \<and> 1 \<le> d \<and> d \<le> days_in_month (int y) m
          then Inr \<lparr>dt_year = int y, dt_month = m, dt_day = d, dt_hour = 0, dt_minute = 0,
                    dt_second = 0, dt_microsecond = 0\<rparr>
          else Inl ValueError
      | _ \<Rightarrow> Inl ValueError)"
  using assms by (simp add: fromisoformat_def nth_append)

lemma fromisoformat_strftime:
  assumes "1 \<le> dt_year dt" "dt_year dt \<le> 9999" "1 \<le> dt_month dt" "dt_month dt \<le> 12"
    "1 \<le> dt_day dt" "dt_day dt \<le> days_in_month (dt_year dt) (dt_month dt)"
  shows "fromisoformat (strftime_ymd dt) =
           Inr \<lparr>dt_year = dt_year dt, dt_month = dt_month dt, dt_day = dt_day dt, dt_hour = 0,
                dt_minute = 0, dt_second = 0, dt_microsecond = 0\<rparr>"
proof -
  have y: "nat (dt_year dt) < 10000" using assms by simp
  have m: "dt_month dt < 100" using assms by simp
  have "days_in_month (dt_year dt) (dt_month dt) \<le> 31" by (simp add: days_in_month_def mdays_def)
  with assms have d: "dt_day dt < 100" by simp
  show ?thesis
    unfolding strftime_ymd_def
    using assms
    by (simp add: fromisoformat_parts length_zero_pad_4[OF y] length_zero_pad_2[OF m]
        length_zero_pad_2[OF d] parse_zero_pad_4[OF y] parse_zero_pad_2[OF m] parse_zero_pad_2[OF d])
qed

lemma str_int_4: "1000 \<le> year \<Longrightarrow> year \<le> 9999 \<Longrightarrow> str_int year = zero_pad 4 (nat year)"
  by (simp add: str_int_def zero_pad_def nat_digits_4)

lemma length_nat_digits_4: "length (nat_digits n) = 4 \<longleftrightarrow> 1000 \<le> n \<and> n < 10000"
proof -
  consider "n < 10" | "10 \<le> n" "n < 100" | "100 \<le> n" "n < 1000" | "1000 \<le> n" "n < 10000"
    | "10000 \<le> n" by linarith
  then show ?thesis
  proof cases
    case 1
    then show ?thesis by (simp add: nat_digits_lt10)
  next
    case 2
    then show ?thesis by (simp add: nat_digits_2)
  next
    case 3
    then show ?thesis by (simp add: nat_digits_3)
  next
    case 4
    then show ?thesis by (simp add: nat_digits_4)
  next
    case 5
    with length_nat_digits_ge5[OF 5] show ?thesis by simp
  qed
qed

lemma days_in_month_le: "days_in_month y m \<le> 31"
  by (simp add: days_in_month_def mdays_def)

lemma set_year_keys:
  "set (year_keys year) =
     {format_key year m d | m d. 1 \<le> m \<and> m \<le> 12 \<and> 1 \<le> d \<and> d \<le> days_in_month year m}"
proof -
  have "set (year_keys year) =
          (\<Union>m\<in>{1..<13}. format_key year m ` {1..<Suc (days_in_month year m)})"
    unfolding year_keys_def set_concat set_map set_upt image_image ..
  also have "\<dots> = {format_key year m d | m d. 1 \<le> m \<and> m \<le> 12 \<and> 1 \<le> d \<and> d \<le> days_in_month year m}"
    (is "?A = ?B")
  proof (intro equalityI subsetI)
    fix k assume "k \<in> ?A"
    then obtain m d where md: "m \<in> {1..<13}" "d \<in> {1..<Suc (days_in_month year m)}"
      and k: "k = format_key year m d" by blast
    from md have "1 \<le> m \<and> m \<le> 12 \<and> 1 \<le> d \<and> d \<le> days_in_month year m"
      by (simp del: atLeastLessThanSuc)
    with k show "k \<in> ?B" by blast
  next
    fix k assume "k \<in> ?B"
    then obtain m d where md: "1 \<le> m" "m \<le> 12" "1 \<le> d" "d \<le> days_in_month year m"
      and k: "k = format_key year m d" by blast
    from md have "m \<in> {1..<13}" "d \<in> {1..<Suc (days_in_month year m)}"
      by (simp_all del: atLeastLessThanSuc)
    with k show "k \<in> ?A" by blast
  qed
  finally show ?thesis .
qed

text \<open>A key of the year that parses as a date is a date of that year.\<close>

lemma format_key_parsed_year:
  assumes m: "m \<le> 12" and d: "d \<le> days_in_month year m"
    and p: "fromisoformat (format_key year m d) = Inr dt"
  shows "dt_year dt = year \<and> 1000 \<le> year \<and> year \<le> 9999"
proof -
  have lm: "length (zero_pad 2 m) = 2" using m by (simp add: length_zero_pad_2)
  have "d \<le> 31" using d days_in_month_le[of year m] by simp
  then have ld: "length (zero_pad 2 d) = 2" by (simp add: length_zero_pad_2)
  from p have "length (format_key year m d) = 10"
    by (auto simp: fromisoformat_def split: if_splits)
  then have l4: "length (str_int year) = 4" by (simp add: format_key_def lm ld)
  have fp: "fromisoformat (format_key year m d) =
     (case (parse_digits 0 (str_int year), parse_digits 0 (zero_pad 2 m), parse_digits 0 (zero_pad 2 d)) of
        (Some y, Some m, Some d) \<Rightarrow>
          if 1 \<le> y \<and> 1 \<le> m \<and> m \<le> 12 \<and> 1 \<le> d \<and> d \<le> days_in_month (int y) m
          then Inr \<lparr>dt_year = int y, dt_month = m, dt_day = d, dt_hour = 0, dt_minute = 0,
                    dt_second = 0, dt_microsecond = 0\<rparr>
          else Inl ValueError
      | _ \<Rightarrow> Inl ValueError)"
    unfolding format_key_def using fromisoformat_parts[OF l4 lm ld] by simp
  show ?thesis
  proof (cases "year < 0")
    case True
    then have "parse_digits 0 (str_int year) = None"
      by (simp add: str_int_def digit_val_dash)
    with fp p show ?thesis by simp
  next
    case False
    then have s: "str_int year = nat_digits (nat year)" by (simp add: str_int_def)
    with l4 have r: "1000 \<le> nat year" "nat year < 10000" by (simp_all add: length_nat_digits_4)
    then have "str_int year = zero_pad 4 (nat year)" using False by (simp add: str_int_4)
    then have "parse_digits 0 (str_int year) = Some (nat year)"
      using r by (simp add: parse_zero_pad_4)
    with fp p False r show ?thesis by (auto split: option.splits if_splits)
  qed
qed

lemma year_keys_in_year:
  "k \<in> set (year_keys year) \<Longrightarrow> fromisoformat k = Inr dt \<Longrightarrow> dt_year dt = year"
  using format_key_parsed_year by (auto simp: set_year_keys)

text \<open>From year 1000 on, the key that the load writes for a date is its key of the year.\<close>

lemma strftime_is_format_key:
  assumes "1000 \<le> dt_year dt" "dt_year dt \<le> 9999"
  shows "strftime_ymd dt = format_key (dt_year dt) (dt_month dt) (dt_day dt)"
  using assms by (simp add: strftime_ymd_def format_key_def str_int_4)

lemma months_upt: "[1..<13] = [1, 2, 3, 4, 5, 6, 7, 8, 9, 10, 11, 12 :: nat]"
  by code_simp

lemma length_year_keys: "length (year_keys year) = (if isleap year then 366 else 365)"
proof -
  have "\<And>m. length (map (format_key year m) [1..<Suc (days_in_month year m)]) = days_in_month year m"
    by (simp del: upt_Suc)
  then have "length (year_keys year) = sum_list (map (days_in_month year) [1..<13])"
    unfolding year_keys_def length_concat map_map comp_def by (simp only:)
  also have "\<dots> = (if isleap year then 366 else 365)"
    unfolding months_upt by (simp add: days_in_month_def mdays_def)
  finally show ?thesis .
qed

lemma append_less_append: "(p @ a < p @ b) = (a < (b :: 'a :: linorder list))"
  by (induction p) simp_all

lemma two_digit_order:
  fixes qa ra qb rb :: nat
  assumes "ra < 10" "rb < 10"
  shows "(qa < qb \<or> qa = qb \<and> ra < rb) \<longleftrightarrow> 10 * qa + ra < 10 * qb + rb"
    and "(qa = qb \<and> ra = rb) \<longleftrightarrow> 10 * qa + ra = 10 * qb + rb"
  using assms by arith+

lemma zero_pad_2_less:
  assumes "a < 100" "b < 100"
  shows "zero_pad 2 a @ x < zero_pad 2 b @ y \<longleftrightarrow> a < b \<or> (a = b \<and> x < y)"
proof -
  have da: "a div 10 mod 10 = a div 10" and db: "b div 10 mod 10 = b div 10"
    using assms by simp_all
  have "zero_pad 2 a @ x < zero_pad 2 b @ y \<longleftrightarrow>
          a div 10 < b div 10 \<or> (a div 10 = b div 10 \<and> (a mod 10 < b mod 10 \<or> (a mod 10 = b mod 10 \<and> x < y)))"
    using assms by (simp add: zero_pad_2 digit_char_less_iff digit_char_eq_iff da db)
  also have "\<dots> \<longleftrightarrow> a < b \<or> (a = b \<and> x < y)"
  proof -
    have r: "a mod 10 < 10" "b mod 10 < 10" by simp_all
    have A: "(a div 10 < b div 10 \<or> a div 10 = b div 10 \<and> a mod 10 < b mod 10) \<longleftrightarrow> a < b"
      using two_digit_order(1)[OF r, of "a div 10" "b div 10"] by simp
    have B: "(a div 10 = b div 10 \<and> a mod 10 = b mod 10) \<longleftrightarrow> a = b"
      using two_digit_order(2)[OF r, of "a div 10" "b div 10"] by simp
    from A B show ?thesis by blast
  qed
  finally show ?thesis .
qed

lemma zero_pad_2_less_iff: "a < 100 \<Longrightarrow> b < 100 \<Longrightarrow> zero_pad 2 a < zero_pad 2 b \<longleftrightarrow> a < b"
  using zero_pad_2_less[of a b "[]" "[]"] by simp

lemma format_key_less_day:
  assumes "d < 100" "d' < 100"
  shows "format_key year m d < format_key year m d' \<longleftrightarrow> d < d'"
proof -
  have "format_key year m d < format_key year m d'
          \<longleftrightarrow> zero_pad 2 m @ CHR ''-'' # zero_pad 2 d < zero_pad 2 m @ CHR ''-'' # zero_pad 2 d'"
    unfolding format_key_def by (simp add: append_less_append)
  also have "\<dots> \<longleftrightarrow> zero_pad 2 d < zero_pad 2 d'"
    unfolding append_less_append by simp
  finally show ?thesis using assms by (simp add: zero_pad_2_less_iff)
qed

lemma format_key_less_month:
  assumes "m < 100" "m' < 100" "m < m'"
  shows "format_key year m d < format_key year m' d'"
proof -
  have "format_key year m d < format_key year m' d'
          \<longleftrightarrow> zero_pad 2 m @ CHR ''-'' # zero_pad 2 d < zero_pad 2 m' @ CHR ''-'' # zero_pad 2 d'"
    unfolding format_key_def by (simp add: append_less_append)
  also have "\<dots>" using assms by (simp only: zero_pad_2_less[OF assms(1,2)]) simp
  finally show ?thesis .
qed

lemma sorted_wrt_concat_map:
  assumes "\<And>m. m \<in> set ms \<Longrightarrow> sorted_wrt R (f m)"
    and "sorted_wrt (\<lambda>m m'. \<forall>x\<in>set (f m). \<forall>y\<in>set (f m'). R x y) ms"
  shows "sorted_wrt R (concat (map f ms))"
  using assms by (induction ms) (auto simp: sorted_wrt_append)

lemma strict_sorted_year_keys: "sorted_wrt (<) (year_keys year)"
  unfolding year_keys_def
proof (rule sorted_wrt_concat_map)
  fix m
  have "sorted_wrt (\<lambda>d d'. format_key year m d < format_key year m d')
          [1..<Suc (days_in_month year m)]"
  proof (rule sorted_wrt_mono_rel[OF _ sorted_wrt_upt])
    fix d d'
    assume "d \<in> set [1..<Suc (days_in_month year m)]" "d' \<in> set [1..<Suc (days_in_month year m)]"
      and lt: "d < d'"
    then have "d \<le> days_in_month year m" "d' \<le> days_in_month year m"
      by (simp_all del: atLeastLessThanSuc upt_Suc)
    then have "d < 100" "d' < 100" using days_in_month_le[of year m] by linarith+
    with lt show "format_key year m d < format_key year m d'"
      by (simp add: format_key_less_day)
  qed
  then show "sorted_wrt (<) (map (format_key year m) [1..<Suc (days_in_month year m)])"
    by (simp add: sorted_wrt_map)
next
  show "sorted_wrt (\<lambda>m m'. \<forall>x\<in>set (map (format_key year m) [1..<Suc (days_in_month year m)]).
            \<forall>y\<in>set (map (format_key year m') [1..<Suc (days_in_month year m')]). x < y) [1..<13]"
  proof (rule sorted_wrt_mono_rel[OF _ sorted_wrt_upt])
    fix m m' :: nat
    assume mm: "m \<in> set [1..<13]" "m' \<in> set [1..<13]" and lt: "m < m'"
    show "\<forall>x\<in>set (map (format_key year m) [1..<Suc (days_in_month year m)]).
            \<forall>y\<in>set (map (format_key year m') [1..<Suc (days_in_month year m')]). x < y"
    proof (intro ballI)
      fix x y
      assume "x \<in> set (map (format_key year m) [1..<Suc (days_in_month year m)])"
        and "y \<in> set (map (format_key year m') [1..<Suc (days_in_month year m')])"
      then obtain d d' where x: "x = format_key year m d" "d \<le> days_in_month year m"
        and y: "y = format_key year m' d'" "d' \<le> days_in_month year m'"
        by (auto simp del: atLeastLessThanSuc upt_Suc)
      have "m < 100" "m' < 100" using mm by simp_all
      moreover note x(2) y(2)
      ultimately show "x < y" using lt x(1) y(1) by (simp add: format_key_less_month)
    qed
  qed
qed

lemma distinct_year_keys: "distinct (year_keys year)"
  using strict_sorted_year_keys[of year] by (simp add: strict_sorted_iff)

lemma sorted_year_keys: "sorted (year_keys year)"
  using strict_sorted_year_keys[of year] by (simp add: strict_sorted_iff)

lemma dict_set_new: "k \<notin> fst ` set al \<Longrightarrow> dict_set k v al = al @ [(k, v)]"
  by (induction al) auto

lemma fold_dict_set_new:
  "distinct ks \<Longrightarrow> set ks \<inter> fst ` set al = {} \<Longrightarrow>
     fold (\<lambda>k d. dict_set k v d) ks al = al @ map (\<lambda>k. (k, v)) ks"
proof (induction ks arbitrary: al)
  case Nil
  show ?case by simp
next
  case (Cons k ks)
  from Cons.prems have k: "k \<notin> fst ` set al" by auto
  have "fold (\<lambda>k d. dict_set k v d) (k # ks) al = fold (\<lambda>k d. dict_set k v d) ks (al @ [(k, v)])"
    by (simp add: dict_set_new[OF k])
  also have "\<dots> = (al @ [(k, v)]) @ map (\<lambda>k. (k, v)) ks"
    using Cons.prems by (intro Cons.IH) auto
  finally show ?case by simp
qed

lemma init_days_eq: "init_days year = map (\<lambda>k. (k, 0)) (year_keys year)"
  unfolding init_days_def using fold_dict_set_new[OF distinct_year_keys, of year "[]" 0] by simp

section \<open>Properties of the contribution\<close>

lemma fill_counts_step:
  assumes "distinct ks" "distinct (map fst items)"
    and "\<forall>kc\<in>set items. \<exists>dt. fromisoformat (fst kc) = Inr dt"
    and "\<forall>kc\<in>set items. in_year year (fst kc) \<longrightarrow> fst kc \<in> set ks"
  shows "fill_counts year items (map (\<lambda>k. (k, g k)) ks) =
           Inr (map (\<lambda>k. (k, case map_of items k of
                               None \<Rightarrow> g k
                             | Some cs \<Rightarrow> if in_year year k then length cs else g k)) ks)"
  using assms(2-4)
proof (induction items arbitrary: g)
  case Nil
  show ?case by simp
next
  case (Cons kc items)
  obtain k cs where kc: "kc = (k, cs)" by (cases kc)
  from Cons.prems(2) kc obtain dt where dt: "fromisoformat k = Inr dt" by auto
  have iy: "in_year year k = (dt_year dt = year)" by (simp add: in_year_def dt)
  from Cons.prems(1) kc have knew: "map_of items k = None"
    by (simp add: map_of_eq_None_iff)
  from Cons.prems have d: "distinct (map fst items)"
    and p: "\<forall>kc\<in>set items. \<exists>dt. fromisoformat (fst kc) = Inr dt"
    and y: "\<forall>kc\<in>set items. in_year year (fst kc) \<longrightarrow> fst kc \<in> set ks"
    by simp_all
  show ?case
  proof (cases "dt_year dt = year")
    case False
    then have "fill_counts year (kc # items) (map (\<lambda>k. (k, g k)) ks) =
                 fill_counts year items (map (\<lambda>k. (k, g k)) ks)"
      by (simp add: kc dt)
    also note Cons.IH[OF d p y, of g]
    finally show ?thesis using False knew by (simp add: kc iy)
  next
    case True
    with Cons.prems(3) kc iy have kin: "k \<in> set ks" by simp
    let ?g = "\<lambda>k'. if k' = k then length cs else g k'"
    have "dict_set k (length cs) (map (\<lambda>k. (k, g k)) ks) = map (\<lambda>k. (k, ?g k)) ks"
      using dict_set_map[OF assms(1), of k "length cs" g] kin by simp
    with True have "fill_counts year (kc # items) (map (\<lambda>k. (k, g k)) ks) =
                 fill_counts year items (map (\<lambda>k. (k, ?g k)) ks)"
      by (simp add: kc dt)
    also note Cons.IH[OF d p y, of ?g]
    finally show ?thesis using True knew by (simp add: kc iy)
  qed
qed

text \<open>The keys of a loaded store are the days of its conversations, written by \<open>strftime_ymd\<close>.\<close>

lemma store_key_date:
  assumes ok: "store_ok s" and k: "k \<in> fst ` set (by_date s)"
  shows "\<exists>c dt. c \<in> set (conversations s) \<and> fromtimestamp (create_time c) = Inr dt
            \<and> k = strftime_ymd dt"
proof -
  from ok k have "filter (\<lambda>c. utc_day (create_time c) = Inr k) (conversations s) \<noteq> []"
    by (simp add: store_ok_def)
  then obtain c where c: "c \<in> set (conversations s)" "utc_day (create_time c) = Inr k"
    by (auto simp: filter_empty_conv)
  from c(2) obtain dt where "fromtimestamp (create_time c) = Inr dt" "k = strftime_ymd dt"
    by (auto simp: utc_day_def split: sum.splits)
  with c(1) show ?thesis by blast
qed

lemma store_key_parses:
  assumes ok: "store_ok s" and k: "k \<in> fst ` set (by_date s)"
  shows "\<exists>dt. fromisoformat k = Inr dt"
proof -
  from store_key_date[OF ok k] obtain c :: conversation and dt where
    dt: "fromtimestamp (create_time c) = Inr dt" "k = strftime_ymd dt" by blast
  from fromtimestamp_valid[OF dt(1)] fromisoformat_strftime[of dt] dt(2)
  show ?thesis by simp
qed

lemma store_key_in_year_keys:
  assumes ok: "store_ok s" and k: "k \<in> fst ` set (by_date s)" and iy: "in_year year k"
    and yr: "1000 \<le> year \<or>
       (\<forall>c\<in>set (conversations s). \<forall>dt. fromtimestamp (create_time c) = Inr dt \<longrightarrow> dt_year dt \<noteq> year)"
  shows "k \<in> set (year_keys year)"
proof -
  from store_key_date[OF ok k] obtain c dt where c: "c \<in> set (conversations s)"
    and dt: "fromtimestamp (create_time c) = Inr dt" "k = strftime_ymd dt" by blast
  note v = fromtimestamp_valid[OF dt(1)]
  from v fromisoformat_strftime[of dt] dt(2) iy have y: "dt_year dt = year"
    by (simp add: in_year_def)
  with yr c dt(1) have "1000 \<le> year" by blast
  with y v have "k = format_key year (dt_month dt) (dt_day dt)"
    using strftime_is_format_key[of dt] dt(2) by simp
  with v y show ?thesis unfolding set_year_keys by blast
qed

lemma fill_counts_loaded:
  assumes ok: "store_ok s"
    and yr: "1000 \<le> year \<or>
       (\<forall>c\<in>set (conversations s). \<forall>dt. fromtimestamp (create_time c) = Inr dt \<longrightarrow> dt_year dt \<noteq> year)"
  shows "fill_counts year (by_date s) (init_days year) =
           Inr (map (\<lambda>k. (k, length (bucket_of (by_date s) k))) (year_keys year))"
proof -
  from ok have d: "distinct (map fst (by_date s))" by (simp add: store_ok_def)
  have p: "\<forall>kc\<in>set (by_date s). \<exists>dt. fromisoformat (fst kc) = Inr dt"
    using store_key_parses[OF ok] by auto
  have y: "\<forall>kc\<in>set (by_date s). in_year year (fst kc) \<longrightarrow> fst kc \<in> set (year_keys year)"
    using store_key_in_year_keys[OF ok _ _ yr] by auto
  have "fill_counts year (by_date s) (init_days year) =
          Inr (map (\<lambda>k. (k, case map_of (by_date s) k of
                               None \<Rightarrow> 0
                             | Some cs \<Rightarrow> if in_year year k then length cs else 0)) (year_keys year))"
    unfolding init_days_eq by (rule fill_counts_step[OF distinct_year_keys d p y])
  moreover have "map (\<lambda>k. (k, case map_of (by_date s) k of
                               None \<Rightarrow> 0
                             | Some cs \<Rightarrow> if in_year year k then length cs else 0)) (year_keys year)
      = map (\<lambda>k. (k, length (bucket_of (by_date s) k))) (year_keys year)"
  proof (rule map_cong[OF refl])
    fix k assume k: "k \<in> set (year_keys year)"
    show "(k, case map_of (by_date s) k of None \<Rightarrow> 0
                | Some cs \<Rightarrow> if in_year year k then length cs else 0)
          = (k, length (bucket_of (by_date s) k))"
    proof (cases "map_of (by_date s) k")
      case None
      then show ?thesis by (simp add: bucket_of_def)
    next
      case (Some cs)
      then have "k \<in> fst ` set (by_date s)" by (metis map_of_eq_None_iff option.distinct(1))
      from store_key_parses[OF ok this] obtain dt where dt: "fromisoformat k = Inr dt" by blast
      from year_keys_in_year[OF k dt] dt have "in_year year k" by (simp add: in_year_def)
      with Some show ?thesis by (simp add: bucket_of_def)
    qed
  qed
  ultimately show ?thesis by simp
qed

lemma ex_999_load:
  "load_data (JList [JDict [(''id'', JStr ''c1''), (''create_time'', JNum (- 30610224001))]]) =
     Inr ex_999_service"
  by code_simp

lemma ex_999_parse:
  "fromisoformat ''0999-12-31'' =
     Inr \<lparr>dt_year = 999, dt_month = 12, dt_day = 31, dt_hour = 0, dt_minute = 0, dt_second = 0,
          dt_microsecond = 0\<rparr>"
  by code_simp

lemma ex_999_key: "format_key 999 12 31 = ''999-12-31''"
  by code_simp

lemma ex_999_contribution:
  "\<exists>r. get_contribution ex_999_service 999 = Inr r \<and> length (con_days r) = 366
       \<and> (''0999-12-31'', 1) \<in> set (con_days r) \<and> (''999-12-31'', 0) \<in> set (con_days r)"
proof -
  have notin: "''0999-12-31'' \<notin> set (year_keys 999)"
  proof
    assume "''0999-12-31'' \<in> set (year_keys 999)"
    then obtain m d where "m \<le> 12" "d \<le> days_in_month 999 m" "''0999-12-31'' = format_key 999 m d"
      unfolding set_year_keys by blast
    with format_key_parsed_year[of m d 999] ex_999_parse show False by simp
  qed
  then have "''0999-12-31'' \<notin> fst ` set (init_days 999)"
    by (simp add: init_days_eq image_image)
  then have ds: "dict_set ''0999-12-31'' (Suc 0) (init_days 999) = init_days 999 @ [(''0999-12-31'', Suc 0)]"
    by (rule dict_set_new)
  have fc: "fill_counts 999 (by_date ex_999_service) (init_days 999) =
          Inr (init_days 999 @ [(''0999-12-31'', 1)])"
    by (simp add: ex_999_service_def ex_999_parse ds)
  have "days_in_month 999 12 = 31" by (simp add: days_in_month_def mdays_def)
  then have "format_key 999 12 31 \<in> set (year_keys 999)"
    unfolding set_year_keys by (intro CollectI exI[of _ 12] exI[of _ 31]) simp
  then have old: "(''999-12-31'', 0) \<in> set (init_days 999)"
    by (auto simp: init_days_eq ex_999_key)
  have len: "length (init_days 999) = 365"
    by (simp add: init_days_eq length_year_keys isleap_def)
  show ?thesis
    unfolding get_contribution_def fc using old len by simp
qed

lemma get_contribution_loaded:
  assumes ok: "store_ok s"
    and yr: "1000 \<le> year \<or>
       (\<forall>c\<in>set (conversations s). \<forall>dt. fromtimestamp (create_time c) = Inr dt \<longrightarrow> dt_year dt \<noteq> year)"
  shows "get_contribution s year =
     Inr \<lparr>con_year = year,
          con_days = map (\<lambda>k. (k, length (bucket_of (by_date s) k))) (year_keys year),
          con_max = Max (set (map (\<lambda>k. length (bucket_of (by_date s) k)) (year_keys year))),
          con_total = sum_list (map (\<lambda>k. length (bucket_of (by_date s) k)) (year_keys year))\<rparr>"
proof -
  let ?ad = "map (\<lambda>k. (k, length (bucket_of (by_date s) k))) (year_keys year)"
  have "sorted (map fst ?ad)" by (simp add: comp_def sorted_year_keys)
  then have srt: "sort_key fst ?ad = ?ad" by (rule sort_key_id_if_sorted)
  have ne: "?ad \<noteq> []" using length_year_keys[of year] by (auto split: if_splits)
  have sn: "map snd ?ad = map (\<lambda>k. length (bucket_of (by_date s) k)) (year_keys year)"
    by (simp add: comp_def)
  show ?thesis
    unfolding get_contribution_def fill_counts_loaded[OF ok yr]
    using ne by (simp only: sum.case srt sn if_True not_False_eq_True)
qed

text \<open>
  For a loaded store and a year from 1000 on (or any year in which the store has no
  conversation), \<^verbatim>\<open>get_contribution\<close> returns one entry per day of the year in calendar
  order, 365 or 366 of them, each with the number of conversations of that UTC day, with the
  largest count and the sum of the counts.
\<close>

theorem contribution_per_day:
  assumes "load_data data = Inr s"
    and "1000 \<le> year \<or>
       (\<forall>c\<in>set (conversations s). \<forall>dt. fromtimestamp (create_time c) = Inr dt \<longrightarrow> dt_year dt \<noteq> year)"
  shows "\<exists>r. get_contribution s year = Inr r
           \<and> con_year r = year
           \<and> con_days r =
               map (\<lambda>k. (k, length (filter (\<lambda>c. utc_day (create_time c) = Inr k) (conversations s))))
                 (year_keys year)
           \<and> length (con_days r) = (if isleap year then 366 else 365)
           \<and> sorted_wrt (<) (map fst (con_days r))
           \<and> con_max r = Max (set (map snd (con_days r)))
           \<and> con_total r = sum_list (map snd (con_days r))
           \<and> ((\<forall>x\<in>set (con_days r). snd x = 0) \<longrightarrow> con_max r = 0 \<and> con_total r = 0)"
proof -
  from load_data_ok[OF assms(1)] have ok: "store_ok s" .
  then have b: "\<And>k. bucket_of (by_date s) k =
      filter (\<lambda>c. utc_day (create_time c) = Inr k) (conversations s)"
    by (simp add: store_ok_def)
  define cnt where "cnt = (\<lambda>k. length (filter (\<lambda>c. utc_day (create_time c) = Inr k) (conversations s)))"
  define r where "r = \<lparr>con_year = year, con_days = map (\<lambda>k. (k, cnt k)) (year_keys year),
          con_max = Max (set (map cnt (year_keys year))),
          con_total = sum_list (map cnt (year_keys year))\<rparr>"
  have g: "get_contribution s year = Inr r"
    unfolding r_def cnt_def using get_contribution_loaded[OF ok assms(2)] by (simp add: b)
  have days: "con_days r = map (\<lambda>k. (k, cnt k)) (year_keys year)" by (simp add: r_def)
  have keys: "map fst (con_days r) = year_keys year" by (simp add: days comp_def)
  have vals: "map snd (con_days r) = map cnt (year_keys year)" by (simp add: days comp_def)
  have len: "length (con_days r) = (if isleap year then 366 else 365)"
    using length_year_keys[of year] by (simp add: days)
  have srt: "sorted_wrt (<) (map fst (con_days r))"
    unfolding keys by (rule strict_sorted_year_keys)
  have mx: "con_max r = Max (set (map snd (con_days r)))" unfolding vals by (simp add: r_def)
  have tot: "con_total r = sum_list (map snd (con_days r))" unfolding vals by (simp add: r_def)
  have zero: "(\<forall>x\<in>set (con_days r). snd x = 0) \<longrightarrow> con_max r = 0 \<and> con_total r = 0"
  proof
    assume z: "\<forall>x\<in>set (con_days r). snd x = 0"
    have ne: "con_days r \<noteq> []" using len by (auto split: if_splits)
    from z have "set (map snd (con_days r)) \<subseteq> {0}" by auto
    with ne have "set (map snd (con_days r)) = {0}" by (cases "con_days r") auto
    then have "con_max r = 0" unfolding mx by simp
    moreover from z have "sum_list (map snd (con_days r)) = 0" by simp
    ultimately show "con_max r = 0 \<and> con_total r = 0" using tot by simp
  qed
  from g days len srt mx tot zero show ?thesis
    unfolding cnt_def by (intro exI[of _ r]) (simp add: r_def)
qed

lemma ex_2023_key: "format_key 2023 11 14 = ''2023-11-14''"
  by code_simp

theorem contribution_per_day_witness:
  "load_data (JList [ex_record]) = Inr ex_service
   \<and> (\<exists>r. get_contribution ex_service 2023 = Inr r \<and> length (con_days r) = 365
          \<and> (''2023-11-14'', 1) \<in> set (con_days r))"
proof -
  have "(1000 :: int) \<le> 2023" by simp
  then have yr: "1000 \<le> (2023 :: int) \<or>
       (\<forall>c\<in>set (conversations ex_service). \<forall>dt. fromtimestamp (create_time c) = Inr dt \<longrightarrow> dt_year dt \<noteq> 2023)"
    by (rule disjI1)
  from contribution_per_day[OF ex_load yr] obtain r where
    g: "get_contribution ex_service 2023 = Inr r"
    and days: "con_days r =
               map (\<lambda>k. (k, length (filter (\<lambda>c. utc_day (create_time c) = Inr k) (conversations ex_service))))
                 (year_keys 2023)"
    and len: "length (con_days r) = (if isleap 2023 then 366 else 365)"
    by blast
  have l: "length (con_days r) = 365" using len by (simp add: isleap_def)
  have "days_in_month 2023 11 = 30" by (simp add: days_in_month_def mdays_def)
  then have "format_key 2023 11 14 \<in> set (year_keys 2023)"
    unfolding set_year_keys by (intro CollectI exI[of _ 11] exI[of _ 14]) simp
  then have k: "''2023-11-14'' \<in> set (year_keys 2023)" by (simp add: ex_2023_key)
  have "length (filter (\<lambda>c. utc_day (create_time c) = Inr ''2023-11-14'') (conversations ex_service)) = 1"
    by (simp add: ex_service_def ex_conv_def utc_day_ex)
  with k have "(''2023-11-14'', 1) \<in> set (con_days r)"
    unfolding days by (simp add: image_iff)
  with g l ex_load show ?thesis by blast
qed

text \<open>
  C6. The claim fails for a year below 1000 in which the store has a conversation: the load
  writes the key of the day with a four-digit year (\<open>0999-12-31\<close>), the year's own keys are
  written without zero-filling (\<open>999-12-31\<close>), so the count lands in an entry of its own.
  For the year 999, not a leap year, the result has 366 entries, and the calendar day of
  the conversation keeps the count 0.
\<close>

theorem contribution_year_999_extra_entry:
  "load_data (JList [JDict [(''id'', JStr ''c1''), (''create_time'', JNum (- 30610224001))]]) =
     Inr ex_999_service
   \<and> (case get_contribution ex_999_service 999 of
        Inl e \<Rightarrow> False
      | Inr r \<Rightarrow> length (con_days r) = 366 \<and> (''0999-12-31'', 1) \<in> set (con_days r)
                 \<and> (''999-12-31'', 0) \<in> set (con_days r))"
  using ex_999_load ex_999_contribution by auto

end
